theory Spec2Isabelle
  imports Complex_Main "HOL-Library.Multiset" "HOL-Library.Stream"
begin

section \<open>Values shared by the store and the application\<close>

text \<open>
  A JavaScript string is a sequence of UTF-16 code units; the model keeps it as the list
  of those code units, so that \<open>trim\<close>, \<open>split\<close> and the character tests of the parser
  see exactly what the source sees. \<open>js\<close> turns an ASCII literal into such a string.
\<close>

type_synonym jsstring = "nat list"

definition js :: "string \<Rightarrow> jsstring" where
  "js s = map of_char s"

text \<open>
  The failure that the store calls modelled here can reject with: an \<open>add\<close> under a key
  that the store already holds.
\<close>

datatype error = ConstraintError

record settings =
  frontLang :: "jsstring option"
  backLang :: "jsstring option"

text \<open>Rows of the three object stores, without their keys.\<close>

record subject_row =
  name :: jsstring
  sub_settings :: settings
  sub_created_at :: nat

record item_row =
  i_subject_id :: nat
  i_front :: jsstring
  i_front_info :: jsstring
  i_back :: jsstring
  i_back_info :: jsstring
  i_created_at :: nat

record progress_row =
  level :: int
  last_studied :: real

text \<open>
  What \<open>getAllItemsWithProgress\<close> returns for one item, and what \<open>AppManager.items\<close> and
  the playlist hold.
\<close>

record view =
  v_id :: nat
  v_subject_id :: nat
  v_front :: jsstring
  v_front_info :: jsstring
  v_back :: jsstring
  v_back_info :: jsstring
  v_level :: int
  v_last_studied :: real

text \<open>
  An element of the array given to \<open>importItems\<close>. The properties the source reads with a
  default (\<open>front_info\<close>, \<open>back_info\<close>, \<open>last_studied\<close>) or tests against
  \<open>undefined\<close> (\<open>level\<close>) are optional; \<open>r_id\<close> is the id an object coming from a backup
  carries, which \<open>importItems\<close> never reads.
\<close>

record import_record =
  r_id :: "nat option"
  r_front :: jsstring
  r_front_info :: "jsstring option"
  r_back :: jsstring
  r_back_info :: "jsstring option"
  r_level :: "int option"
  r_last_studied :: "real option"

section \<open>MemorizationDB\<close>

text \<open>
  The database: the stores \<open>subjects\<close> and \<open>items\<close> have \<open>autoIncrement\<close> keys, so each is
  the list of its rows in key order together with the key generator's current number;
  \<open>progress\<close> is keyed by \<open>item_id\<close> and only ever read by key, so it is a map.
\<close>

record db =
  subjects :: "(nat \<times> subject_row) list"
  subjects_next :: nat
  items :: "(nat \<times> item_row) list"
  items_next :: nat
  progress :: "nat \<rightharpoonup> progress_row"

definition store_delete :: "nat \<Rightarrow> (nat \<times> 'a) list \<Rightarrow> (nat \<times> 'a) list" where
  "store_delete k rows = filter (\<lambda>(k', r). k' \<noteq> k) rows"

definition store_get :: "(nat \<times> 'a) list \<Rightarrow> nat \<Rightarrow> 'a option" where
  "store_get rows k = map_of rows k"

definition store_put :: "nat \<Rightarrow> 'a \<Rightarrow> (nat \<times> 'a) list \<Rightarrow> (nat \<times> 'a) list" where
  "store_put k r rows = map (\<lambda>(k', r'). if k' = k then (k', r) else (k', r')) rows"

text \<open>\<open>index.getAllKeys(subjectId)\<close> on the index \<open>subject_id\<close> of the item store.\<close>

definition getAllKeys :: "nat \<Rightarrow> db \<Rightarrow> nat list" where
  "getAllKeys subjectId s =
     map fst (filter (\<lambda>(k, r). i_subject_id r = subjectId) (items s))"

text \<open>The body of the \<open>forEach\<close> of \<open>deleteSubject\<close> and \<open>clearItemsBySubject\<close>.\<close>

definition delete_item_rows :: "nat \<Rightarrow> db \<Rightarrow> db" where
  "delete_item_rows itemId s =
     s\<lparr>items := store_delete itemId (items s), progress := (progress s)(itemId := None)\<rparr>"

definition createSubject :: "nat \<Rightarrow> jsstring \<Rightarrow> settings \<Rightarrow> db \<Rightarrow> nat \<times> db" where
  "createSubject now nm st s =
     (subjects_next s,
      s\<lparr>subjects := subjects s @
           [(subjects_next s, \<lparr>name = nm, sub_settings = st, sub_created_at = now\<rparr>)],
        subjects_next := subjects_next s + 1\<rparr>)"

definition deleteSubject :: "nat \<Rightarrow> db \<Rightarrow> db" where
  "deleteSubject subjId s =
     (let s1 = s\<lparr>subjects := store_delete subjId (subjects s)\<rparr>;
          itemIds = getAllKeys subjId s1
      in fold delete_item_rows itemIds s1)"

definition clearItemsBySubject :: "nat \<Rightarrow> db \<Rightarrow> db" where
  "clearItemsBySubject subjectId s =
     (let itemIds = getAllKeys subjectId s
      in fold delete_item_rows itemIds s)"

text \<open>
  \<open>updateItem\<close> reads the row under \<open>item.id\<close>; when there is one it overwrites the four
  texts and puts the row back. The transaction completes either way and the promise
  resolves with \<open>true\<close>.
\<close>

definition updateItem :: "view \<Rightarrow> db \<Rightarrow> (error + bool) \<times> db" where
  "updateItem item s =
     (case store_get (items s) (v_id item) of
        None \<Rightarrow> (Inr True, s)
      | Some existing \<Rightarrow>
          (Inr True,
           s\<lparr>items := store_put (v_id item)
                (existing\<lparr>i_front := v_front item, i_front_info := v_front_info item,
                          i_back := v_back item, i_back_info := v_back_info item\<rparr>)
                (items s)\<rparr>))"

definition deleteItem :: "nat \<Rightarrow> db \<Rightarrow> (error + bool) \<times> db" where
  "deleteItem itemId s =
     (Inr True,
      s\<lparr>items := store_delete itemId (items s), progress := (progress s)(itemId := None)\<rparr>)"

text \<open>
  \<open>importItems\<close>. Each element gives one row of \<open>items\<close>; \<open>clock i\<close> is what
  \<open>Date.now()\<close> returns while the \<open>forEach\<close> is at index \<open>i\<close>.
\<close>

definition new_item :: "nat \<Rightarrow> nat \<Rightarrow> import_record \<Rightarrow> item_row" where
  "new_item now subjectId item =
     \<lparr>i_subject_id = subjectId,
      i_front = r_front item,
      i_front_info = (case r_front_info item of None \<Rightarrow> [] | Some t \<Rightarrow> t),
      i_back = r_back item,
      i_back_info = (case r_back_info item of None \<Rightarrow> [] | Some t \<Rightarrow> t),
      i_created_at = now\<rparr>"

text \<open>The row \<open>request.onsuccess\<close> adds to \<open>progress\<close> for an element.\<close>

definition new_progress :: "import_record \<Rightarrow> progress_row" where
  "new_progress item =
     (case r_level item of
        Some lv \<Rightarrow>
          \<lparr>level = lv,
           last_studied = (case r_last_studied item of None \<Rightarrow> 0 | Some t \<Rightarrow> t)\<rparr>
      | None \<Rightarrow> \<lparr>level = 0, last_studied = 0\<rparr>)"

text \<open>\<open>itemStore.add\<close> without a key: the key generator supplies it.\<close>

definition itemStore_add :: "item_row \<Rightarrow> db \<Rightarrow> nat \<times> db" where
  "itemStore_add row s =
     (items_next s,
      s\<lparr>items := items s @ [(items_next s, row)], items_next := items_next s + 1\<rparr>)"

text \<open>
  \<open>progressStore.add\<close>: unlike \<open>put\<close>, \<open>add\<close> fails with a \<open>ConstraintError\<close> when the
  key is already in the store. No handler of the source stops that error, so it aborts
  the transaction.
\<close>

definition progressStore_add :: "nat \<Rightarrow> progress_row \<Rightarrow> db \<Rightarrow> error + db" where
  "progressStore_add k row s =
     (if progress s k \<noteq> None then Inl ConstraintError
      else Inr (s\<lparr>progress := (progress s)(k \<mapsto> row)\<rparr>))"

text \<open>
  The \<open>forEach\<close> places one \<open>add\<close> on the item store per element; the success handlers,
  which run afterwards in the same order, place the \<open>add\<close> on the progress store.
\<close>

fun add_all_items ::
  "(nat \<Rightarrow> nat) \<Rightarrow> nat \<Rightarrow> nat \<Rightarrow> import_record list \<Rightarrow> db
     \<Rightarrow> (nat \<times> import_record) list \<times> db" where
  "add_all_items clock subjectId i [] s = ([], s)"
| "add_all_items clock subjectId i (item # rest) s =
     (let (k, s1) = itemStore_add (new_item (clock i) subjectId item) s;
          (ks, s2) = add_all_items clock subjectId (Suc i) rest s1
      in ((k, item) # ks, s2))"

fun add_all_progress :: "(nat \<times> import_record) list \<Rightarrow> db \<Rightarrow> error + db" where
  "add_all_progress [] s = Inr s"
| "add_all_progress ((k, item) # rest) s =
     (case progressStore_add k (new_progress item) s of
        Inl e \<Rightarrow> Inl e
      | Inr s1 \<Rightarrow> add_all_progress rest s1)"

text \<open>The transaction over \<open>items\<close> and \<open>progress\<close> that \<open>importItems\<close> opens.\<close>

definition import_transaction ::
  "(nat \<Rightarrow> nat) \<Rightarrow> nat \<Rightarrow> import_record list \<Rightarrow> db \<Rightarrow> error + db" where
  "import_transaction clock subjectId recs s =
     (let (ks, s1) = add_all_items clock subjectId 0 recs s
      in add_all_progress ks s1)"

text \<open>
  \<open>importItems\<close> awaits \<open>clearItemsBySubject\<close>, a transaction of its own, before it opens
  its transaction. When that one aborts, its writes are undone and the promise rejects;
  what \<open>clearItemsBySubject\<close> committed stays.
\<close>

definition importItems ::
  "(nat \<Rightarrow> nat) \<Rightarrow> nat \<Rightarrow> import_record list \<Rightarrow> bool \<Rightarrow> db \<Rightarrow> (error + unit) \<times> db" where
  "importItems clock subjectId recs clearExisting s =
     (let s0 = (if clearExisting then clearItemsBySubject subjectId s else s)
      in case import_transaction clock subjectId recs s0 of
           Inl e \<Rightarrow> (Inl e, s0)
         | Inr s1 \<Rightarrow> (Inr (), s1))"

text \<open>
  \<open>getAllItemsWithProgress\<close>: the items of the subject in key order, each joined with
  its progress row, or with level 0 and time 0 when it has none.
\<close>

definition merged :: "db \<Rightarrow> nat \<times> item_row \<Rightarrow> view" where
  "merged s = (\<lambda>(k, item).
     (let p = (case progress s k of None \<Rightarrow> \<lparr>level = 0, last_studied = 0\<rparr> | Some p \<Rightarrow> p)
      in \<lparr>v_id = k, v_subject_id = i_subject_id item,
          v_front = i_front item, v_front_info = i_front_info item,
          v_back = i_back item, v_back_info = i_back_info item,
          v_level = level p, v_last_studied = last_studied p\<rparr>))"

definition getAllItemsWithProgress :: "nat \<Rightarrow> db \<Rightarrow> view list" where
  "getAllItemsWithProgress subjectId s =
     map (merged s) (filter (\<lambda>(k, r). i_subject_id r = subjectId) (items s))"

definition updateProgress :: "nat \<Rightarrow> nat \<Rightarrow> int \<Rightarrow> db \<Rightarrow> db" where
  "updateProgress now itemId lv s =
     s\<lparr>progress := (progress s)(itemId \<mapsto> \<lparr>level = lv, last_studied = real now / 1000\<rparr>)\<rparr>"

text \<open>The database right after \<open>init\<close> has created the three stores.\<close>

definition empty_db :: db where
  "empty_db =
     \<lparr>subjects = [], subjects_next = 1, items = [], items_next = 1, progress = Map.empty\<rparr>"

text \<open>An element as the parser or the add button produces it, with the given texts.\<close>

definition plain_record :: "jsstring \<Rightarrow> jsstring \<Rightarrow> import_record" where
  "plain_record f b =
     \<lparr>r_id = None, r_front = f, r_front_info = Some [], r_back = b, r_back_info = Some [],
      r_level = None, r_last_studied = None\<rparr>"

text \<open>
  A database with two subjects: subject 1 has the items 1 and 3, subject 2 has item 2,
  and item 1 has been graded.
\<close>

definition two_subjects_db :: db where
  "two_subjects_db =
     (let (a, s1) = createSubject 10 (js ''General'') \<lparr>frontLang = None, backLang = None\<rparr> empty_db;
          (b, s2) = createSubject 20 (js ''Kanji'') \<lparr>frontLang = None, backLang = None\<rparr> s1;
          s3 = snd (importItems (\<lambda>i. 30) a [plain_record (js ''cat'') (js ''neko'')] False s2);
          s4 = snd (importItems (\<lambda>i. 40) b [plain_record (js ''dog'') (js ''inu'')] False s3);
          s5 = snd (importItems (\<lambda>i. 50) a [plain_record (js ''bird'') (js ''tori'')] False s4)
      in updateProgress 60000 1 2 s5)"

text \<open>
  Item 3 is deleted, and then graded from a page that still shows it: \<open>updateProgress\<close>
  is a \<open>put\<close>, so it stores a progress row under the id of the vanished item.
\<close>

definition stale_grade_db :: db where
  "stale_grade_db = updateProgress 70000 3 1 (snd (deleteItem 3 two_subjects_db))"

text \<open>
  Closed forms used to state what the import transaction writes: the item rows it appends
  when the key generator stands at \<open>n\<close>, and whether one of the keys it is about to
  generate already has a progress row.
\<close>

definition new_rows ::
  "(nat \<Rightarrow> nat) \<Rightarrow> nat \<Rightarrow> nat \<Rightarrow> nat \<Rightarrow> import_record list \<Rightarrow> (nat \<times> item_row) list" where
  "new_rows clock subjectId i n recs =
     map (\<lambda>j. (n + j, new_item (clock (i + j)) subjectId (recs ! j))) [0..<length recs]"

definition collides :: "import_record list \<Rightarrow> db \<Rightarrow> bool" where
  "collides recs s = (\<exists>j < length recs. progress s (items_next s + j) \<noteq> None)"

text \<open>
  Two properties of a database. The first holds in every database that IndexedDB can
  hold: an item key was handed out by the key generator, so it is below the generator's
  current number. The second says that no progress row sits at a key that the generator
  has not handed out yet; \<open>updateProgress\<close> with such an id breaks it.
\<close>

definition item_keys_assigned :: "db \<Rightarrow> bool" where
  "item_keys_assigned s = (\<forall>k \<in> fst ` set (items s). k < items_next s)"

definition no_early_progress :: "db \<Rightarrow> bool" where
  "no_early_progress s = (\<forall>k. items_next s \<le> k \<longrightarrow> progress s k = None)"

text \<open>
  A grade is stored for id 4, which the key generator of the example has not handed out
  yet (\<open>updateProgress\<close> takes any id).
\<close>

definition early_grade_db :: db where
  "early_grade_db = updateProgress 70000 4 1 two_subjects_db"

text \<open>An element as a backup holds it: with its old id, a level and a time.\<close>

definition restored_record :: import_record where
  "restored_record =
     \<lparr>r_id = Some 1, r_front = js ''A'', r_front_info = None, r_back = js ''B'',
      r_back_info = Some (js ''b''), r_level = Some 2, r_last_studied = Some 100\<rparr>"

section \<open>AppManager: playlist\<close>

text \<open>
  The fields of \<open>AppManager\<close> that the playlist and the backup use. \<open>a_items\<close> is
  \<open>this.items\<close>, \<open>a_subjects\<close> is \<open>this.subjects\<close> (each subject with its id),
  \<open>lastSubjectId\<close> is the entry of \<open>localStorage\<close>.

  \<open>math_random\<close> stands for the coming calls of \<open>Math.random()\<close>. The program uses a
  random number \<open>u\<close> in one expression only, \<open>Math.floor(u * currentIndex)\<close>, a product
  of IEEE doubles; so the element for the call number \<open>k\<close> is the function that gives,
  for every \<open>currentIndex\<close>, the index which that expression yields with the number
  the call returns. How the product is rounded is thereby left to the source of the
  numbers.
\<close>

record app =
  a_items :: "view list"
  playlist :: "view list"
  currentIndex :: nat
  isRandom :: bool
  a_subjects :: "(nat \<times> subject_row) list"
  currentSubject :: "(nat \<times> subject_row) option"
  targetLevels :: "int list"
  sortMode :: jsstring
  lastSubjectId :: "nat option"
  math_random :: "(nat \<Rightarrow> nat) stream"

text \<open>
  \<open>shuffle\<close>: the loop counts \<open>currentIndex\<close> down from the length; each round draws
  \<open>randomIndex = Math.floor(Math.random() * currentIndex)\<close>, which is the next element of
  the random source applied to \<open>currentIndex\<close>, then decrements \<open>currentIndex\<close> and swaps
  the two places. The result comes with the rest of the random source.
\<close>

fun shuffle_loop ::
  "nat \<Rightarrow> (nat \<Rightarrow> nat) stream \<Rightarrow> 'a list \<Rightarrow> 'a list \<times> (nat \<Rightarrow> nat) stream" where
  "shuffle_loop 0 rs array = (array, rs)"
| "shuffle_loop (Suc n) rs array =
     (let randomIndex = shd rs (Suc n);
          currentIndex = n
      in shuffle_loop currentIndex (stl rs)
           (array[currentIndex := array ! randomIndex, randomIndex := array ! currentIndex]))"

definition shuffle ::
  "(nat \<Rightarrow> nat) stream \<Rightarrow> 'a list \<Rightarrow> 'a list \<times> (nat \<Rightarrow> nat) stream" where
  "shuffle rs array = shuffle_loop (length array) rs array"

text \<open>
  \<open>refreshPlaylist\<close>. With no candidate the function returns right after emptying the
  playlist. \<open>Array.prototype.sort\<close> is stable, and so is \<open>sort_key\<close>.
\<close>

definition refreshPlaylist :: "int list \<Rightarrow> jsstring \<Rightarrow> app \<Rightarrow> app" where
  "refreshPlaylist activeLevels mode a =
     (let a1 = a\<lparr>targetLevels := activeLevels, sortMode := mode\<rparr>;
          candidates = filter (\<lambda>item. v_level item \<in> set activeLevels) (a_items a1)
      in if candidates = [] then a1\<lparr>playlist := []\<rparr>
         else
           (let a2 =
                  (if mode = js ''random'' then
                     (let (arr, rs) = shuffle (math_random a1) candidates
                      in a1\<lparr>isRandom := True, playlist := arr, math_random := rs\<rparr>)
                   else if mode = js ''id_asc'' then
                     a1\<lparr>isRandom := False, playlist := sort_key v_id candidates\<rparr>
                   else
                     a1\<lparr>isRandom := False, playlist := sort_key v_last_studied candidates\<rparr>)
            in a2\<lparr>currentIndex := 0\<rparr>))"

text \<open>
  What \<open>getNextItem\<close> returns: \<open>null\<close> for an empty playlist, an element of the playlist,
  or \<open>undefined\<close> when it reads the playlist past its end.
\<close>

datatype next_item = Null | Undefined | Item view

definition getNextItem :: "app \<Rightarrow> next_item \<times> app" where
  "getNextItem a =
     (if playlist a = [] then (Null, a)
      else
        (let a1 =
               (if length (playlist a) \<le> currentIndex a then
                  (let a0 = a\<lparr>currentIndex := 0\<rparr>
                   in if isRandom a0 then refreshPlaylist (targetLevels a0) (sortMode a0) a0
                      else a0)
                else a);
             item =
               (if currentIndex a1 < length (playlist a1)
                then Item (playlist a1 ! currentIndex a1) else Undefined)
         in (item, a1\<lparr>currentIndex := currentIndex a1 + 1\<rparr>)))"

text \<open>\<open>n\<close> successive calls of \<open>getNextItem\<close>, with what each returned.\<close>

fun nexts :: "nat \<Rightarrow> app \<Rightarrow> next_item list \<times> app" where
  "nexts 0 a = ([], a)"
| "nexts (Suc n) a =
     (let (x, a1) = getNextItem a;
          (xs, a2) = nexts n a1
      in (x # xs, a2))"

text \<open>
  What \<open>Math.random()\<close> promises, a number from 0 (included) to 1 (excluded), as the
  program relies on it: every index drawn for a \<open>currentIndex\<close> above 0 is below it.
\<close>

definition draws_in_range :: "(nat \<Rightarrow> nat) stream \<Rightarrow> bool" where
  "draws_in_range rs = (\<forall>k n. 0 < n \<longrightarrow> (rs !! k) n < n)"

text \<open>
  A session over three items with the ids 1, 2, 3 and the levels 0, 1, 2, studied at
  different times, before any playlist was built.
\<close>

definition flash_card :: "nat \<Rightarrow> int \<Rightarrow> real \<Rightarrow> view" where
  "flash_card k lv t =
     \<lparr>v_id = k, v_subject_id = 1, v_front = js ''A'', v_front_info = [], v_back = js ''B'',
      v_back_info = [], v_level = lv, v_last_studied = t\<rparr>"

definition three_cards :: app where
  "three_cards =
     \<lparr>a_items = [flash_card 1 0 50, flash_card 2 1 0, flash_card 3 2 20], playlist = [],
      currentIndex = 0, isRandom = False, a_subjects = [], currentSubject = None, targetLevels = [0, 1, 2],
      sortMode = js ''random'', lastSubjectId = None, math_random = sconst (\<lambda>n. 0)\<rparr>"

text \<open>
  A session in \<open>random\<close> mode between two rounds: its playlist is some arrangement of
  the items that pass the filter, and the cursor is at the start or at the end.
\<close>

definition random_session :: "int list \<Rightarrow> view list \<Rightarrow> app \<Rightarrow> bool" where
  "random_session levels its b =
     (isRandom b \<and> sortMode b = js ''random'' \<and> targetLevels b = levels \<and> a_items b = its
      \<and> draws_in_range (math_random b)
      \<and> mset (playlist b) = mset (filter (\<lambda>item. v_level item \<in> set levels) its)
      \<and> (currentIndex b = 0 \<or> currentIndex b = length (playlist b)))"

text \<open>
  The session of the three items when every call of \<open>Math.random()\<close> returns 0.5, with
  the cursor at \<open>c\<close>. The double product \<open>0.5 * currentIndex\<close> is exact, so the index
  drawn is \<open>currentIndex div 2\<close>.
\<close>

definition half_session :: "nat \<Rightarrow> app" where
  "half_session c =
     \<lparr>a_items = [flash_card 1 0 50, flash_card 2 1 0, flash_card 3 2 20],
      playlist = [flash_card 1 0 50, flash_card 3 2 20, flash_card 2 1 0], currentIndex = c,
      isRandom = True, a_subjects = [], currentSubject = None, targetLevels = [0, 1, 2],
      sortMode = js ''random'', lastSubjectId = None,
      math_random = sconst (\<lambda>n. n div 2)\<rparr>"

section \<open>AppManager: subjects and backup\<close>

text \<open>
  The backup document, as the object that \<open>JSON.stringify\<close> is given and that
  \<open>JSON.parse\<close> returns: the JSON text in between is not modelled. A document read from
  a file may lack \<open>subject\<close>, \<open>items\<close> or the settings.
\<close>

record backup_subject =
  bs_name :: jsstring
  bs_settings :: "settings option"

record backup =
  version :: nat
  b_subject :: "backup_subject option"
  b_items :: "import_record list option"

text \<open>
  An element of \<open>this.items\<close> as \<open>importItems\<close> reads it back from the document: every
  property it looks at is present. (Its \<open>subject_id\<close> is in the document too; nothing
  reads it.)
\<close>

definition as_record :: "view \<Rightarrow> import_record" where
  "as_record v =
     \<lparr>r_id = Some (v_id v), r_front = v_front v, r_front_info = Some (v_front_info v),
      r_back = v_back v, r_back_info = Some (v_back_info v),
      r_level = Some (v_level v), r_last_studied = Some (v_last_studied v)\<rparr>"

definition exportSubjectBackup :: "app \<Rightarrow> backup option" where
  "exportSubjectBackup a =
     (case currentSubject a of
        None \<Rightarrow> None
      | Some (subjId, sub) \<Rightarrow>
          Some \<lparr>version = 1,
                b_subject = Some \<lparr>bs_name = name sub, bs_settings = Some (sub_settings sub)\<rparr>,
                b_items = Some (map as_record (a_items a))\<rparr>)"

definition loadSubjects :: "db \<Rightarrow> app \<Rightarrow> app" where
  "loadSubjects s a = a\<lparr>a_subjects := subjects s\<rparr>"

definition loadData :: "db \<Rightarrow> app \<Rightarrow> app" where
  "loadData s a =
     (case currentSubject a of
        None \<Rightarrow> a
      | Some (subjId, sub) \<Rightarrow> a\<lparr>a_items := getAllItemsWithProgress subjId s\<rparr>)"

definition selectSubject :: "nat \<Rightarrow> db \<Rightarrow> app \<Rightarrow> app" where
  "selectSubject subjId s a =
     (case find (\<lambda>(k, sub). k = subjId) (a_subjects a) of
        None \<Rightarrow> a
      | Some subject \<Rightarrow>
          loadData s (a\<lparr>currentSubject := Some subject, lastSubjectId := Some subjId\<rparr>))"

text \<open>
  \<open>importSubjectBackup\<close> on a parsed document. \<open>now\<close> is the time at which the subject is
  created, \<open>clock\<close> the times of the item rows. Any rejection inside the \<open>try\<close> is
  caught and the function returns \<open>false\<close>.
\<close>

definition importSubjectBackup ::
  "nat \<Rightarrow> (nat \<Rightarrow> nat) \<Rightarrow> backup \<Rightarrow> app \<times> db \<Rightarrow> bool \<times> app \<times> db" where
  "importSubjectBackup now clock doc = (\<lambda>(a, s).
     (case (b_subject doc, b_items doc) of
        (Some subj, Some its) \<Rightarrow>
          (let nm = bs_name subj @ js '' (Imported)'';
               (newId, s1) = createSubject now nm
                  (case bs_settings subj of
                     None \<Rightarrow> \<lparr>frontLang = None, backLang = None\<rparr>
                   | Some st \<Rightarrow> st) s
           in case importItems clock newId its True s1 of
                (Inl e, s2) \<Rightarrow> (False, a, s2)
              | (Inr u, s2) \<Rightarrow>
                  (let a1 = loadSubjects s2 a;
                       a2 = selectSubject newId s2 a1
                   in (True, a2, s2)))
      | _ \<Rightarrow> (False, a, s)))"

text \<open>
  The same for the subjects: the keys in use are below the key generator of the store.
\<close>

definition subject_keys_assigned :: "db \<Rightarrow> bool" where
  "subject_keys_assigned s = (\<forall>k \<in> fst ` set (subjects s). k < subjects_next s)"

text \<open>What a backup is to preserve of an item: its four texts, its level and its time.\<close>

definition content :: "view \<Rightarrow> jsstring \<times> jsstring \<times> jsstring \<times> jsstring \<times> int \<times> real" where
  "content v =
     (v_front v, v_front_info v, v_back v, v_back_info v, v_level v, v_last_studied v)"

text \<open>
  The example of the round trip, built through the application: a fresh database, one
  subject with the single item A / B, graded with level 2 at the time 100 s, and the
  session that has selected the subject.
\<close>

definition new_app :: app where
  "new_app =
     \<lparr>a_items = [], playlist = [], currentIndex = 0, isRandom = False, a_subjects = [],
      currentSubject = None, targetLevels = [0, 1, 2], sortMode = js ''random'',
      lastSubjectId = None, math_random = sconst (\<lambda>n. 0)\<rparr>"

definition deck_db :: db where
  "deck_db =
     (let (d, s1) = createSubject 10 (js ''Deck'') \<lparr>frontLang = None, backLang = None\<rparr> empty_db;
          s2 = snd (importItems (\<lambda>i. 30) d [plain_record (js ''A'') (js ''B'')] False s1)
      in updateProgress 100000 1 2 s2)"

definition deck_session :: app where
  "deck_session = selectSubject 1 deck_db (loadSubjects deck_db new_app)"

text \<open>The document that the example session exports.\<close>

definition deck_doc :: backup where
  "deck_doc =
     \<lparr>version = 1,
      b_subject = Some \<lparr>bs_name = js ''Deck'',
                         bs_settings = Some \<lparr>frontLang = None, backLang = None\<rparr>\<rparr>,
      b_items = Some [\<lparr>r_id = Some 1, r_front = js ''A'', r_front_info = Some [],
                       r_back = js ''B'', r_back_info = Some [],
                       r_level = Some 2, r_last_studied = Some 100\<rparr>]\<rparr>"

section \<open>AppManager: the import parser\<close>

text \<open>What \<open>parseCSV\<close> pushes for a line.\<close>

record csv_record =
  c_front :: jsstring
  c_front_info :: jsstring
  c_back :: jsstring
  c_back_info :: jsstring

text \<open>
  The code units that \<open>String.prototype.trim\<close> removes: the white space and the line
  terminators of ECMAScript (tab, LF, VT, FF, CR, space, U+00A0, U+1680, U+2000 to
  U+200A, U+2028, U+2029, U+202F, U+205F, U+3000, U+FEFF).
\<close>

definition isWhiteSpace :: "nat \<Rightarrow> bool" where
  "isWhiteSpace c =
     (c = 9 \<or> c = 10 \<or> c = 11 \<or> c = 12 \<or> c = 13 \<or> c = 32 \<or> c = 160 \<or> c = 5760
      \<or> (8192 \<le> c \<and> c \<le> 8202) \<or> c = 8232 \<or> c = 8233 \<or> c = 8239 \<or> c = 8287
      \<or> c = 12288 \<or> c = 65279)"

definition trim :: "jsstring \<Rightarrow> jsstring" where
  "trim s = rev (dropWhile isWhiteSpace (rev (dropWhile isWhiteSpace s)))"

text \<open>
  \<open>text.split(/\r?\n/)\<close>: a line ends at LF, or at CR when LF follows it. \<open>cur\<close> holds
  the code units of the line so far, the last one first.
\<close>

fun split_lines :: "jsstring \<Rightarrow> jsstring \<Rightarrow> jsstring list" where
  "split_lines cur [] = [rev cur]"
| "split_lines cur (c # cs) =
     (if c = 13 \<and> cs \<noteq> [] \<and> hd cs = 10 then rev cur # split_lines [] (tl cs)
      else if c = 10 then rev cur # split_lines [] cs
      else split_lines (c # cur) cs)"

text \<open>\<open>line.split('\t')\<close>, for any separating code unit \<open>d\<close>.\<close>

fun split_on :: "nat \<Rightarrow> jsstring \<Rightarrow> jsstring \<Rightarrow> jsstring list" where
  "split_on d cur [] = [rev cur]"
| "split_on d cur (c # cs) =
     (if c = d then rev cur # split_on d [] cs else split_on d (c # cur) cs)"

text \<open>
  The helper \<open>parseLine\<close>: \<open>values\<close>, \<open>current\<close> and \<open>inQuote\<close> are its three variables,
  the last argument is the line from index \<open>i\<close> on. Code unit 34 is the double quote.
\<close>

fun parseLine_loop ::
  "nat \<Rightarrow> jsstring list \<Rightarrow> jsstring \<Rightarrow> bool \<Rightarrow> jsstring \<Rightarrow> jsstring list" where
  "parseLine_loop delimiter values current inQuote [] = values @ [current]"
| "parseLine_loop delimiter values current inQuote (c # rest) =
     (if c = 34 then
        (if inQuote \<and> rest \<noteq> [] \<and> hd rest = 34
         then parseLine_loop delimiter values (current @ [34]) inQuote (tl rest)
         else parseLine_loop delimiter values current (\<not> inQuote) rest)
      else if c = delimiter \<and> \<not> inQuote
        then parseLine_loop delimiter (values @ [current]) [] inQuote rest
      else parseLine_loop delimiter values (current @ [c]) inQuote rest)"

definition parseLine :: "jsstring \<Rightarrow> nat \<Rightarrow> jsstring list" where
  "parseLine line delimiter = parseLine_loop delimiter [] [] False line"

text \<open>
  \<open>replace(/^"|"$/g, '')\<close> removes a quote at the start and a quote at the end (of what
  is left, so that a lone quote is removed once); \<open>replace(/""/g, '"')\<close> then turns each
  pair of quotes, from the left, into one.
\<close>

definition strip_quotes :: "jsstring \<Rightarrow> jsstring" where
  "strip_quotes s =
     (let s1 = (if s \<noteq> [] \<and> hd s = 34 then tl s else s)
      in if s1 \<noteq> [] \<and> last s1 = 34 then butlast s1 else s1)"

fun collapse_quotes :: "jsstring \<Rightarrow> jsstring" where
  "collapse_quotes [] = []"
| "collapse_quotes [c] = [c]"
| "collapse_quotes (c # c' # cs) =
     (if c = 34 \<and> c' = 34 then 34 # collapse_quotes cs
      else c # collapse_quotes (c' # cs))"

definition clean_part :: "jsstring \<Rightarrow> jsstring" where
  "clean_part p = collapse_quotes (strip_quotes (trim p))"

text \<open>The parts of a trimmed line: split at tabs when it has one (code unit 9), parsed
  with commas (code unit 44) and quotes otherwise; then each part cleaned.\<close>

definition line_parts :: "jsstring \<Rightarrow> jsstring list" where
  "line_parts line =
     map clean_part (if 9 \<in> set line then split_on 9 [] line else parseLine line 44)"

text \<open>The mapping based on the column count.\<close>

definition map_fields :: "jsstring list \<Rightarrow> csv_record" where
  "map_fields parts =
     (if 4 \<le> length parts then
        \<lparr>c_front = parts ! 0, c_front_info = parts ! 1, c_back = parts ! 2,
         c_back_info = parts ! 3\<rparr>
      else if length parts = 3 then
        \<lparr>c_front = parts ! 0, c_front_info = parts ! 2, c_back = parts ! 1, c_back_info = []\<rparr>
      else if length parts = 2 then
        \<lparr>c_front = parts ! 0, c_front_info = [], c_back = parts ! 1, c_back_info = []\<rparr>
      else if length parts = 1 then
        \<lparr>c_front = parts ! 0, c_front_info = [], c_back = [], c_back_info = []\<rparr>
      else \<lparr>c_front = [], c_front_info = [], c_back = [], c_back_info = []\<rparr>)"

text \<open>The \<open>for\<close> loop over the lines, and \<open>parseCSV\<close>.\<close>

fun parse_lines :: "jsstring list \<Rightarrow> csv_record list" where
  "parse_lines [] = []"
| "parse_lines (line0 # lines) =
     (let line = trim line0
      in if line = [] then parse_lines lines
         else
           (let parts = line_parts line
            in if 0 < length parts then
                 (let r = map_fields parts
                  in if c_front r \<noteq> [] \<or> c_back r \<noteq> []
                     then r # parse_lines lines else parse_lines lines)
               else parse_lines lines))"

definition parseCSV :: "jsstring \<Rightarrow> csv_record list" where
  "parseCSV text = parse_lines (split_lines [] text)"

text \<open>
  Two lines: \<open>x\<close>, \<open>y\<close>, \<open>z\<close> separated by tabs, and the five comma-separated fields
  \<open>a\<close> to \<open>e\<close> of which the first four are in double quotes.
\<close>

definition tab_line :: jsstring where
  "tab_line = js ''x'' @ [9] @ js ''y'' @ [9] @ js ''z''"

definition quoted_line :: jsstring where
  "quoted_line =
     [34] @ js ''a'' @ [34] @ js '','' @ [34] @ js ''b'' @ [34] @ js '','' @ [34] @ js ''c''
     @ [34] @ js '','' @ [34] @ js ''d'' @ [34] @ js '',e''"

section \<open>The product of doubles in \<open>shuffle\<close>\<close>

text \<open>
  ECMAScript's \<open>*\<close> on Numbers is the IEEE 754 binary64 product: the exact product,
  rounded to the nearest double, to the one with an even significand when two are equally
  near. \<open>round_ties_even\<close> is that rounding to an integer.
\<close>

definition round_ties_even :: "real \<Rightarrow> int" where
  "round_ties_even y =
     (let f = \<lfloor>y\<rfloor>
      in if y - of_int f < 1 / 2 then f
         else if 1 / 2 < y - of_int f then f + 1
         else if even f then f else f + 1)"

text \<open>
  The doubles from \<open>2 ^ e\<close> up to \<open>2 ^ (e + 1)\<close> are the multiples of \<open>2 ^ (e - 52)\<close>;
  below \<open>2 ^ - 1022\<close> (the subnormal numbers) they are the multiples of \<open>2 ^ - 1074\<close>.
\<close>

definition double_ulp :: "real \<Rightarrow> real" where
  "double_ulp x = 2 powr (of_int (max \<lfloor>log 2 x\<rfloor> (- 1022)) - 52)"

text \<open>
  The double nearest to a real number. Numbers from \<open>2 ^ 1024\<close> on, which IEEE rounds
  to infinity, are outside this function: the products of \<open>shuffle\<close> are below the
  length of an array.
\<close>

definition double_round :: "real \<Rightarrow> real" where
  "double_round x =
     (if x = 0 then 0
      else sgn x * of_int (round_ties_even (\<bar>x\<bar> / double_ulp \<bar>x\<bar>)) * double_ulp \<bar>x\<bar>)"

text \<open>
  \<open>Math.floor(u * currentIndex)\<close> for a double \<open>u\<close> that \<open>Math.random()\<close> returned and
  the \<open>currentIndex\<close> \<open>n\<close> of the loop (an array length, exact as a double). This is
  the function that stands in \<open>math_random\<close> for that call.
\<close>

definition random_index :: "real \<Rightarrow> nat \<Rightarrow> nat" where
  "random_index u n = nat \<lfloor>double_round (u * real n)\<rfloor>"

section \<open>Evaluating the example databases\<close>

lemmas db_ops = createSubject_def empty_db_def importItems_def import_transaction_def
  itemStore_add_def progressStore_add_def new_item_def new_progress_def plain_record_def
  updateProgress_def js_def clearItemsBySubject_def getAllKeys_def delete_item_rows_def
  store_delete_def

lemma two_subjects_db_eq:
  "two_subjects_db =
     \<lparr>subjects =
        [(1, \<lparr>name = js ''General'', sub_settings = \<lparr>frontLang = None, backLang = None\<rparr>,
               sub_created_at = 10\<rparr>),
         (2, \<lparr>name = js ''Kanji'', sub_settings = \<lparr>frontLang = None, backLang = None\<rparr>,
               sub_created_at = 20\<rparr>)],
      subjects_next = 3,
      items =
        [(1, \<lparr>i_subject_id = 1, i_front = js ''cat'', i_front_info = [],
               i_back = js ''neko'', i_back_info = [], i_created_at = 30\<rparr>),
         (2, \<lparr>i_subject_id = 2, i_front = js ''dog'', i_front_info = [],
               i_back = js ''inu'', i_back_info = [], i_created_at = 40\<rparr>),
         (3, \<lparr>i_subject_id = 1, i_front = js ''bird'', i_front_info = [],
               i_back = js ''tori'', i_back_info = [], i_created_at = 50\<rparr>)],
      items_next = 4,
      progress = [1 \<mapsto> \<lparr>level = 2, last_studied = 60\<rparr>,
                  2 \<mapsto> \<lparr>level = 0, last_studied = 0\<rparr>,
                  3 \<mapsto> \<lparr>level = 0, last_studied = 0\<rparr>]\<rparr>"
  apply (simp add: two_subjects_db_def db_ops)
  apply (rule ext)
  apply simp
  done

section \<open>Cascading deletion\<close>

lemma items_delete_item_rows:
  "items (delete_item_rows k s) = store_delete k (items s)"
  by (simp add: delete_item_rows_def)

lemma items_fold_delete:
  "items (fold delete_item_rows ks s) = filter (\<lambda>(k, r). k \<notin> set ks) (items s)"
proof (induction ks arbitrary: s)
  case Nil
  then show ?case by simp
next
  case (Cons k ks)
  have "items (fold delete_item_rows (k # ks) s)
        = filter (\<lambda>(k', r). k' \<notin> set ks) (store_delete k (items s))"
    using Cons.IH [of "delete_item_rows k s"] by (simp add: items_delete_item_rows)
  also have "\<dots> = filter (\<lambda>(k', r). k' \<notin> set (k # ks)) (items s)"
    by (auto simp: store_delete_def intro: filter_cong)
  finally show ?case .
qed

lemma progress_fold_delete:
  "progress (fold delete_item_rows ks s) k = (if k \<in> set ks then None else progress s k)"
  by (induction ks arbitrary: s) (auto simp: delete_item_rows_def)

lemma subjects_fold_delete:
  "subjects (fold delete_item_rows ks s) = subjects s"
  by (induction ks arbitrary: s) (auto simp: delete_item_rows_def)

lemma generators_fold_delete:
  "items_next (fold delete_item_rows ks s) = items_next s
   \<and> subjects_next (fold delete_item_rows ks s) = subjects_next s"
  by (induction ks arbitrary: s) (auto simp: delete_item_rows_def)

lemma set_getAllKeys:
  "set (getAllKeys sid s) = {k. \<exists>r. (k, r) \<in> set (items s) \<and> i_subject_id r = sid}"
  by (auto simp: getAllKeys_def image_iff)

text \<open>
  C1. For every database and every subject id, after \<open>deleteSubject\<close> the subject row is
  gone, no item has that \<open>subject_id\<close> (the index of the subject is empty), and no
  progress row is left under the key of an item that belonged to the subject.
\<close>

theorem deleteSubject_cascade:
  "store_get (subjects (deleteSubject sid s)) sid = None
   \<and> getAllKeys sid (deleteSubject sid s) = []
   \<and> (\<forall>k r. (k, r) \<in> set (items (deleteSubject sid s)) \<longrightarrow> i_subject_id r \<noteq> sid)
   \<and> (\<forall>k \<in> set (getAllKeys sid s). progress (deleteSubject sid s) k = None)"
proof -
  let ?s1 = "s\<lparr>subjects := store_delete sid (subjects s)\<rparr>"
  have keys: "getAllKeys sid ?s1 = getAllKeys sid s"
    by (simp add: getAllKeys_def)
  have its: "items (deleteSubject sid s)
             = filter (\<lambda>(k, r). k \<notin> set (getAllKeys sid s)) (items s)"
    by (simp add: deleteSubject_def Let_def keys items_fold_delete)
  have no_item: "\<forall>k r. (k, r) \<in> set (items (deleteSubject sid s)) \<longrightarrow> i_subject_id r \<noteq> sid"
    unfolding its by (auto simp: set_getAllKeys)
  have "store_get (subjects (deleteSubject sid s)) sid = None"
    by (auto simp: deleteSubject_def Let_def subjects_fold_delete store_get_def
        store_delete_def map_of_eq_None_iff)
  moreover have "getAllKeys sid (deleteSubject sid s) = []"
    using no_item by (auto simp: getAllKeys_def filter_empty_conv)
  moreover have "\<forall>k \<in> set (getAllKeys sid s). progress (deleteSubject sid s) k = None"
    by (simp add: deleteSubject_def Let_def keys progress_fold_delete)
  ultimately show ?thesis using no_item by blast
qed

text \<open>
  Subject 1 of the example owns the items 1 and 3, both with a progress row; after the
  deletion only item 2 and its progress row are left.
\<close>

theorem deleteSubject_cascade_witness:
  "getAllKeys 1 two_subjects_db = [1, 3]
   \<and> progress two_subjects_db 1 \<noteq> None \<and> progress two_subjects_db 3 \<noteq> None
   \<and> progress (deleteSubject 1 two_subjects_db) 1 = None
   \<and> progress (deleteSubject 1 two_subjects_db) 3 = None
   \<and> getAllKeys 1 (deleteSubject 1 two_subjects_db) = []
   \<and> map fst (items (deleteSubject 1 two_subjects_db)) = [2]
   \<and> progress (deleteSubject 1 two_subjects_db) 2 = Some \<lparr>level = 0, last_studied = 0\<rparr>"
  using deleteSubject_cascade [of 1 two_subjects_db]
  by (simp add: two_subjects_db_eq deleteSubject_def getAllKeys_def delete_item_rows_def
      store_delete_def)

section \<open>Editing and deleting one item\<close>

text \<open>
  C8. When no stored item has the id of \<open>item\<close>, \<open>updateItem\<close> resolves with \<open>true\<close> and
  the database is unchanged. When a row \<open>existing\<close> has it, the call resolves with \<open>true\<close>,
  the row becomes \<open>existing\<close> with its four texts replaced by those of \<open>item\<close>
  (\<open>subject_id\<close> and \<open>created_at\<close> kept), and every other row, the keys, the key
  generators and the other two stores are unchanged.
\<close>

theorem updateItem_effect:
  "(store_get (items s) (v_id item) = None \<longrightarrow> updateItem item s = (Inr True, s))
   \<and> (\<forall>existing. store_get (items s) (v_id item) = Some existing \<longrightarrow>
          fst (updateItem item s) = Inr True
          \<and> subjects (snd (updateItem item s)) = subjects s
          \<and> subjects_next (snd (updateItem item s)) = subjects_next s
          \<and> items_next (snd (updateItem item s)) = items_next s
          \<and> progress (snd (updateItem item s)) = progress s
          \<and> map fst (items (snd (updateItem item s))) = map fst (items s)
          \<and> store_get (items (snd (updateItem item s))) (v_id item)
              = Some (existing\<lparr>i_front := v_front item, i_front_info := v_front_info item,
                                i_back := v_back item, i_back_info := v_back_info item\<rparr>)
          \<and> (\<forall>k. k \<noteq> v_id item \<longrightarrow>
                store_get (items (snd (updateItem item s))) k = store_get (items s) k))"
proof -
  have put_keys: "map fst (store_put k r rows) = map fst rows" for k and r :: item_row and rows
    by (induction rows) (auto simp: store_put_def)
  have put_same: "map_of rows k = Some e \<Longrightarrow> map_of (store_put k r rows) k = Some r"
    for k e and r :: item_row and rows
    by (induction rows) (auto simp: store_put_def split: if_splits)
  have put_other: "k' \<noteq> k \<Longrightarrow> map_of (store_put k r rows) k' = map_of rows k'"
    for k k' and r :: item_row and rows
    by (induction rows) (auto simp: store_put_def)
  show ?thesis
    by (auto simp: updateItem_def store_get_def put_keys put_same put_other)
qed


theorem updateItem_effect_witness:
  "store_get (items two_subjects_db) 7 = None
   \<and> updateItem \<lparr>v_id = 7, v_subject_id = 1, v_front = js ''x'', v_front_info = [],
          v_back = js ''y'', v_back_info = [], v_level = 0, v_last_studied = 0\<rparr> two_subjects_db
       = (Inr True, two_subjects_db)
   \<and> store_get (items two_subjects_db) 2
       = Some \<lparr>i_subject_id = 2, i_front = js ''dog'', i_front_info = [],
               i_back = js ''inu'', i_back_info = [], i_created_at = 40\<rparr>
   \<and> store_get (items (snd (updateItem
          \<lparr>v_id = 2, v_subject_id = 9, v_front = js ''hound'', v_front_info = js ''n.'',
           v_back = js ''ken'', v_back_info = js ''on'', v_level = 1, v_last_studied = 5\<rparr>
          two_subjects_db))) 2
       = Some \<lparr>i_subject_id = 2, i_front = js ''hound'', i_front_info = js ''n.'',
               i_back = js ''ken'', i_back_info = js ''on'', i_created_at = 40\<rparr>
   \<and> store_get (items (snd (updateItem
          \<lparr>v_id = 2, v_subject_id = 9, v_front = js ''hound'', v_front_info = js ''n.'',
           v_back = js ''ken'', v_back_info = js ''on'', v_level = 1, v_last_studied = 5\<rparr>
          two_subjects_db))) 3
       = store_get (items two_subjects_db) 3"
  using updateItem_effect [of two_subjects_db
      "\<lparr>v_id = 7, v_subject_id = 1, v_front = js ''x'', v_front_info = [],
        v_back = js ''y'', v_back_info = [], v_level = 0, v_last_studied = 0\<rparr>"]
    updateItem_effect [of two_subjects_db
      "\<lparr>v_id = 2, v_subject_id = 9, v_front = js ''hound'', v_front_info = js ''n.'',
        v_back = js ''ken'', v_back_info = js ''on'', v_level = 1, v_last_studied = 5\<rparr>"]
  by (simp add: two_subjects_db_eq store_get_def)

text \<open>
  C10, as the code has it. \<open>deleteItem\<close> resolves with \<open>true\<close> for every id and never
  touches the subjects; it removes the progress row under the id whether or not an item
  has that id. When no item has the id, the item store is unchanged, and when no
  progress row has it either, the whole database is unchanged.
\<close>

theorem deleteItem_effect:
  "fst (deleteItem itemId s) = Inr True
   \<and> subjects (snd (deleteItem itemId s)) = subjects s
   \<and> progress (snd (deleteItem itemId s)) = (progress s)(itemId := None)
   \<and> (store_get (items s) itemId = None \<longrightarrow>
        items (snd (deleteItem itemId s)) = items s
        \<and> (progress s itemId = None \<longrightarrow> snd (deleteItem itemId s) = s))"
proof -
  have "map_of rows itemId = None \<Longrightarrow> store_delete itemId rows = rows"
    for rows :: "(nat \<times> item_row) list"
    by (induction rows) (auto simp: store_delete_def split: if_splits)
  then show ?thesis
    by (auto simp: deleteItem_def store_get_def fun_upd_idem)
qed


theorem deleteItem_effect_witness:
  "store_get (items two_subjects_db) 7 = None \<and> progress two_subjects_db 7 = None
   \<and> deleteItem 7 two_subjects_db = (Inr True, two_subjects_db)"
  using deleteItem_effect [of 7 two_subjects_db]
  by (simp add: two_subjects_db_eq store_get_def deleteItem_def prod_eq_iff)

text \<open>
  C10 as stated fails where a progress row has outlived its item: no item has id 3, the
  call resolves with \<open>true\<close>, and the progress store loses the row under 3.
\<close>

theorem deleteItem_orphan_counterexample:
  "store_get (items stale_grade_db) 3 = None
   \<and> fst (deleteItem 3 stale_grade_db) = Inr True
   \<and> progress stale_grade_db 3 = Some \<lparr>level = 1, last_studied = 70\<rparr>
   \<and> progress (snd (deleteItem 3 stale_grade_db)) 3 = None
   \<and> progress (snd (deleteItem 3 stale_grade_db)) \<noteq> progress stale_grade_db"
proof -
  have a: "progress stale_grade_db 3 = Some \<lparr>level = 1, last_studied = 70\<rparr>"
    by (simp add: stale_grade_db_def updateProgress_def)
  have b: "progress (snd (deleteItem 3 stale_grade_db)) 3 = None"
    by (simp add: deleteItem_def)
  have c: "store_get (items stale_grade_db) 3 = None"
    by (simp add: stale_grade_db_def updateProgress_def deleteItem_def two_subjects_db_eq
        store_get_def store_delete_def)
  have d: "fst (deleteItem 3 stale_grade_db) = Inr True"
    by (simp add: deleteItem_def)
  from a b have "progress (snd (deleteItem 3 stale_grade_db)) \<noteq> progress stale_grade_db"
    by (metis option.distinct(1))
  with a b c d show ?thesis by blast
qed

section \<open>The import transaction\<close>

lemma new_rows_Cons:
  "new_rows clock sid i n (r # recs)
   = (n, new_item (clock i) sid r) # new_rows clock sid (Suc i) (Suc n) recs"
proof -
  have "[Suc 0..<Suc (length recs)] = map Suc [0..<length recs]"
    by (simp only: map_Suc_upt)
  then show ?thesis
    by (simp add: new_rows_def upt_conv_Cons comp_def del: upt_Suc)
qed

lemma add_all_items_eq:
  "add_all_items clock sid i recs s
   = (zip [items_next s..<items_next s + length recs] recs,
      s\<lparr>items := items s @ new_rows clock sid i (items_next s) recs,
        items_next := items_next s + length recs\<rparr>)"
proof (induction recs arbitrary: i s)
  case Nil
  then show ?case by (simp add: new_rows_def)
next
  case (Cons r recs)
  show ?case
    by (simp add: Cons.IH itemStore_add_def new_rows_Cons upt_conv_Cons del: upt_Suc)
qed

lemma add_all_progress_ok:
  "distinct (map fst ks) \<Longrightarrow> \<forall>k \<in> set (map fst ks). progress s k = None \<Longrightarrow>
   add_all_progress ks s
   = Inr (s\<lparr>progress := (\<lambda>k. case map_of ks k of
                                 Some r \<Rightarrow> Some (new_progress r) | None \<Rightarrow> progress s k)\<rparr>)"
proof (induction ks s rule: add_all_progress.induct)
  case (1 s)
  then show ?case by simp
next
  case (2 k item rest s)
  let ?s1 = "s\<lparr>progress := (progress s)(k \<mapsto> new_progress item)\<rparr>"
  have st: "progressStore_add k (new_progress item) s = Inr ?s1"
    using 2 by (simp add: progressStore_add_def)
  have "\<forall>k' \<in> set (map fst rest). progress ?s1 k' = None"
    using 2 by auto
  with 2 st have "add_all_progress rest ?s1
     = Inr (?s1\<lparr>progress := (\<lambda>k'. case map_of rest k' of
                  Some r \<Rightarrow> Some (new_progress r) | None \<Rightarrow> progress ?s1 k')\<rparr>)"
    by simp
  moreover have "(\<lambda>k'. case map_of rest k' of
                  Some r \<Rightarrow> Some (new_progress r) | None \<Rightarrow> progress ?s1 k')
        = (\<lambda>k'. case map_of ((k, item) # rest) k' of
                  Some r \<Rightarrow> Some (new_progress r) | None \<Rightarrow> progress s k')"
  proof (rule ext)
    fix k'
    show "(case map_of rest k' of
             Some r \<Rightarrow> Some (new_progress r) | None \<Rightarrow> progress ?s1 k')
          = (case map_of ((k, item) # rest) k' of
               Some r \<Rightarrow> Some (new_progress r) | None \<Rightarrow> progress s k')"
    proof (cases "k' = k")
      case True
      have "map_of rest k = None"
        using 2(2) by (simp add: map_of_eq_None_iff)
      with True show ?thesis by simp
    next
      case False
      then show ?thesis by (simp split: option.splits)
    qed
  qed
  ultimately show ?case using st by simp
qed

lemma add_all_progress_fail:
  "\<exists>k \<in> set (map fst ks). progress s k \<noteq> None \<Longrightarrow> distinct (map fst ks) \<Longrightarrow>
   add_all_progress ks s = Inl ConstraintError"
proof (induction ks s rule: add_all_progress.induct)
  case (1 s)
  then show ?case by simp
next
  case (2 k item rest s)
  show ?case
  proof (cases "progress s k = None")
    case False
    then show ?thesis by (simp add: progressStore_add_def)
  next
    case True
    let ?s1 = "s\<lparr>progress := (progress s)(k \<mapsto> new_progress item)\<rparr>"
    have st: "progressStore_add k (new_progress item) s = Inr ?s1"
      using True by (simp add: progressStore_add_def)
    from 2(2) True obtain k' where k': "k' \<in> set (map fst rest)" "progress s k' \<noteq> None"
      by auto
    then have "\<exists>k \<in> set (map fst rest). progress ?s1 k \<noteq> None" by auto
    with 2 st show ?thesis by simp
  qed
qed


lemma import_transaction_eq:
  "import_transaction clock sid recs s
   = (if collides recs s then Inl ConstraintError
      else Inr (s\<lparr>items := items s @ new_rows clock sid 0 (items_next s) recs,
                 items_next := items_next s + length recs,
                 progress := (\<lambda>k. case map_of (zip [items_next s..<items_next s + length recs] recs) k of
                                   Some r \<Rightarrow> Some (new_progress r)
                                 | None \<Rightarrow> progress s k)\<rparr>))"
proof -
  let ?n = "items_next s"
  let ?ks = "zip [?n..<?n + length recs] recs"
  let ?s1 = "s\<lparr>items := items s @ new_rows clock sid 0 ?n recs,
               items_next := ?n + length recs\<rparr>"
  have fst_ks: "map fst ?ks = [?n..<?n + length recs]" by simp
  have tr: "import_transaction clock sid recs s = add_all_progress ?ks ?s1"
    by (simp add: import_transaction_def add_all_items_eq)
  have dist: "distinct (map fst ?ks)" by (simp only: fst_ks distinct_upt)
  have col: "collides recs s \<longleftrightarrow> (\<exists>k \<in> set (map fst ?ks). progress ?s1 k \<noteq> None)"
  proof
    assume "collides recs s"
    then obtain j where "j < length recs" "progress s (?n + j) \<noteq> None"
      by (auto simp: collides_def)
    then show "\<exists>k \<in> set (map fst ?ks). progress ?s1 k \<noteq> None"
      unfolding fst_ks by (intro bexI [of _ "?n + j"]) auto
  next
    assume "\<exists>k \<in> set (map fst ?ks). progress ?s1 k \<noteq> None"
    then obtain k where k: "?n \<le> k" "k < ?n + length recs" "progress s k \<noteq> None"
      unfolding fst_ks by auto
    then have "k - ?n < length recs" "progress s (?n + (k - ?n)) \<noteq> None" by auto
    then show "collides recs s" unfolding collides_def by blast
  qed
  show ?thesis
  proof (cases "collides recs s")
    case True
    then show ?thesis
      using add_all_progress_fail [OF _ dist, of ?s1] col tr by simp
  next
    case False
    then have "\<forall>k \<in> set (map fst ?ks). progress ?s1 k = None"
      using col by blast
    from add_all_progress_ok [OF dist this] False tr show ?thesis
      by (simp cong: option.case_cong)
  qed
qed

lemma clear_fields:
  "items (clearItemsBySubject sid s)
     = filter (\<lambda>(k, r). k \<notin> set (getAllKeys sid s)) (items s)"
  "progress (clearItemsBySubject sid s) k
     = (if k \<in> set (getAllKeys sid s) then None else progress s k)"
  "subjects (clearItemsBySubject sid s) = subjects s"
  "items_next (clearItemsBySubject sid s) = items_next s"
  "subjects_next (clearItemsBySubject sid s) = subjects_next s"
  by (simp_all add: clearItemsBySubject_def items_fold_delete progress_fold_delete
      subjects_fold_delete generators_fold_delete)

lemma importItems_closed_form:
  "importItems clock sid recs clr s =
     (let s0 = (if clr then clearItemsBySubject sid s else s)
      in if collides recs s0 then (Inl ConstraintError, s0)
         else (Inr (),
               s0\<lparr>items := items s0 @ new_rows clock sid 0 (items_next s0) recs,
                  items_next := items_next s0 + length recs,
                  progress := (\<lambda>k. case map_of (zip [items_next s0..<items_next s0 + length recs] recs) k of
                                    Some r \<Rightarrow> Some (new_progress r)
                                  | None \<Rightarrow> progress s0 k)\<rparr>))"
  by (simp add: importItems_def import_transaction_eq Let_def)

lemma item_keys_assigned_clear:
  "item_keys_assigned s \<Longrightarrow> item_keys_assigned (clearItemsBySubject sid s)"
  by (auto simp: item_keys_assigned_def clear_fields)

lemma no_early_progress_clear:
  "no_early_progress s \<Longrightarrow> no_early_progress (clearItemsBySubject sid s)"
  by (auto simp: no_early_progress_def clear_fields)

lemma no_early_progress_no_collision:
  "no_early_progress s \<Longrightarrow> \<not> collides recs s"
  by (auto simp: no_early_progress_def collides_def)

lemma importItems_resolves_iff:
  "fst (importItems clock sid recs clr s) = Inr ()
   \<longleftrightarrow> \<not> collides recs (if clr then clearItemsBySubject sid s else s)"
  by (simp add: importItems_closed_form Let_def)

lemma importItems_subjects:
  "subjects (snd (importItems clock sid recs clr s)) = subjects s"
  "subjects_next (snd (importItems clock sid recs clr s)) = subjects_next s"
  by (simp_all add: importItems_closed_form Let_def clear_fields)

lemma early_grade_db_progress:
  "progress early_grade_db 4 = Some \<lparr>level = 1, last_studied = 70\<rparr>"
  by (simp add: early_grade_db_def updateProgress_def)

lemma early_grade_db_fields:
  "items early_grade_db = items two_subjects_db"
  "items_next early_grade_db = 4"
  by (simp_all add: early_grade_db_def updateProgress_def two_subjects_db_eq)

lemma map_of_new_rows:
  "j < length recs \<Longrightarrow>
   map_of (new_rows clock sid i n recs) (n + j) = Some (new_item (clock (i + j)) sid (recs ! j))"
proof -
  assume j: "j < length recs"
  have "map_of (map (\<lambda>j. (n + j, f j)) js) (n + j) = Some (f j)" if "j \<in> set js"
    for js :: "nat list" and f :: "nat \<Rightarrow> item_row"
    using that by (induction js) auto
  from this [of "[0..<length recs]"] j show ?thesis
    by (simp add: new_rows_def)
qed

lemma importItems_ignores_r_id:
  "importItems clock sid (map (\<lambda>r. r\<lparr>r_id := g r\<rparr>) recs) clr s
   = importItems clock sid recs clr s"
proof -
  let ?f = "\<lambda>r. r\<lparr>r_id := g r\<rparr>"
  have rows: "new_rows clock sid i n (map ?f recs) = new_rows clock sid i n recs" for i n
    by (simp add: new_rows_def new_item_def cong: map_cong)
  have col: "collides (map ?f recs) t = collides recs t" for t
    by (simp add: collides_def)
  have pr: "(case map_of (zip ks (map ?f recs)) k of
               Some r \<Rightarrow> Some (new_progress r) | None \<Rightarrow> d)
            = (case map_of (zip ks recs) k of
               Some r \<Rightarrow> Some (new_progress r) | None \<Rightarrow> d)"
    for ks :: "nat list" and k d
    by (simp add: zip_map2 map_of_map new_progress_def split: option.splits)
  show ?thesis
    by (simp add: importItems_closed_form rows col pr Let_def)
qed

lemma two_subjects_db_keys:
  "item_keys_assigned two_subjects_db" "no_early_progress two_subjects_db"
  by (auto simp: item_keys_assigned_def no_early_progress_def two_subjects_db_eq)

text \<open>
  C3, as the code has it. \<open>importItems\<close> is not one transaction but up to two. With
  \<open>clearExisting\<close>, \<open>clearItemsBySubject\<close> commits first. The transaction of the adds
  is all-or-nothing: when one of the keys it generates already has a progress row it
  aborts, the promise rejects, and the database is the one the clearing left (the
  unchanged one without \<open>clearExisting\<close>); otherwise every element's item row and
  progress row are added.
\<close>

theorem importItems_transactions:
  "importItems clock sid recs clr s =
     (let s0 = (if clr then clearItemsBySubject sid s else s)
      in if collides recs s0 then (Inl ConstraintError, s0)
         else (Inr (),
               s0\<lparr>items := items s0 @ new_rows clock sid 0 (items_next s0) recs,
                  items_next := items_next s0 + length recs,
                  progress := (\<lambda>k. case map_of (zip [items_next s0..<items_next s0 + length recs] recs) k of
                                    Some r \<Rightarrow> Some (new_progress r)
                                  | None \<Rightarrow> progress s0 k)\<rparr>))"
  by (simp add: importItems_def import_transaction_eq Let_def)

theorem importItems_transactions_witness:
  "collides [plain_record (js ''fish'') (js ''sakana'')] (clearItemsBySubject 1 early_grade_db)
   \<and> importItems (\<lambda>i. 80) 1 [plain_record (js ''fish'') (js ''sakana'')] True early_grade_db
       = (Inl ConstraintError, clearItemsBySubject 1 early_grade_db)
   \<and> \<not> collides [plain_record (js ''fish'') (js ''sakana'')] two_subjects_db
   \<and> fst (importItems (\<lambda>i. 80) 1 [plain_record (js ''fish'') (js ''sakana'')] False two_subjects_db)
       = Inr ()
   \<and> map fst (items (snd (importItems (\<lambda>i. 80) 1
         [plain_record (js ''fish'') (js ''sakana'')] False two_subjects_db))) = [1, 2, 3, 4]"
proof -
  have a: "collides [plain_record (js ''fish'') (js ''sakana'')] (clearItemsBySubject 1 early_grade_db)"
    by (simp add: collides_def clear_fields early_grade_db_fields early_grade_db_progress
        getAllKeys_def two_subjects_db_eq)
  have b: "\<not> collides [plain_record (js ''fish'') (js ''sakana'')] two_subjects_db"
    by (simp add: collides_def two_subjects_db_eq)
  show ?thesis
    using a b
      importItems_transactions [of "\<lambda>i. 80" 1 "[plain_record (js ''fish'') (js ''sakana'')]" True early_grade_db]
      importItems_transactions [of "\<lambda>i. 80" 1 "[plain_record (js ''fish'') (js ''sakana'')]" False two_subjects_db]
    by (simp add: new_rows_def two_subjects_db_eq)
qed


text \<open>
  C3 as stated fails: the import below rejects, the items 1 and 3 of subject 1 and their
  progress rows are gone, and nothing of the new batch is there.
\<close>

theorem importItems_clear_survives_counterexample:
  "map fst (items early_grade_db) = [1, 2, 3]
   \<and> fst (importItems (\<lambda>i. 80) 1 [plain_record (js ''fish'') (js ''sakana'')] True early_grade_db)
       = Inl ConstraintError
   \<and> map fst (items (snd (importItems (\<lambda>i. 80) 1
          [plain_record (js ''fish'') (js ''sakana'')] True early_grade_db))) = [2]
   \<and> progress early_grade_db 1 = Some \<lparr>level = 2, last_studied = 60\<rparr>
   \<and> progress (snd (importItems (\<lambda>i. 80) 1
          [plain_record (js ''fish'') (js ''sakana'')] True early_grade_db)) 1 = None"
  by (simp add: early_grade_db_def two_subjects_db_eq db_ops)

text \<open>
  C7. Whenever \<open>importItems\<close> resolves, the element at index \<open>j\<close> is stored under the
  key \<open>items_next s + j\<close>, which neither store held before, and its progress row has
  the element's \<open>level\<close> and \<open>last_studied\<close> (0 when that is absent) when the element has
  a \<open>level\<close>, and level 0 and time 0 otherwise. The call does resolve when no progress
  row sits at a key not handed out yet. The ids that the elements carry play no part.
\<close>

theorem importItems_progress_rows:
  assumes ik: "item_keys_assigned s" and j: "j < length recs"
  shows "(no_early_progress s \<longrightarrow> fst (importItems clock sid recs clr s) = Inr ())
     \<and> store_get (items s) (items_next s + j) = None
     \<and> (fst (importItems clock sid recs clr s) = Inr () \<longrightarrow>
          progress s (items_next s + j) = None
          \<and> store_get (items (snd (importItems clock sid recs clr s))) (items_next s + j)
              = Some \<lparr>i_subject_id = sid,
                      i_front = r_front (recs ! j),
                      i_front_info = (case r_front_info (recs ! j) of None \<Rightarrow> [] | Some t \<Rightarrow> t),
                      i_back = r_back (recs ! j),
                      i_back_info = (case r_back_info (recs ! j) of None \<Rightarrow> [] | Some t \<Rightarrow> t),
                      i_created_at = clock j\<rparr>
          \<and> (\<forall>lv. r_level (recs ! j) = Some lv \<longrightarrow>
                 progress (snd (importItems clock sid recs clr s)) (items_next s + j)
                 = Some \<lparr>level = lv,
                         last_studied =
                           (case r_last_studied (recs ! j) of None \<Rightarrow> 0 | Some t \<Rightarrow> t)\<rparr>)
          \<and> (r_level (recs ! j) = None \<longrightarrow>
                 progress (snd (importItems clock sid recs clr s)) (items_next s + j)
                 = Some \<lparr>level = 0, last_studied = 0\<rparr>))
     \<and> importItems clock sid (map (\<lambda>r. r\<lparr>r_id := g r\<rparr>) recs) clr s
         = importItems clock sid recs clr s"
proof -
  let ?n = "items_next s"
  let ?s0 = "if clr then clearItemsBySubject sid s else s"
  let ?res = "importItems clock sid recs clr s"
  have ik0: "item_keys_assigned ?s0"
    using ik by (simp add: item_keys_assigned_clear)
  have n0: "items_next ?s0 = ?n"
    by (simp add: clear_fields)
  have resolves: "fst ?res = Inr ()" if "no_early_progress s"
  proof -
    have "no_early_progress ?s0"
      using that by (simp add: no_early_progress_clear)
    then show ?thesis
      unfolding importItems_resolves_iff by (rule no_early_progress_no_collision)
  qed
  have old: "map_of (items s) (?n + j) = None"
    using ik by (fastforce simp: item_keys_assigned_def map_of_eq_None_iff)
  have old0: "map_of (items ?s0) (?n + j) = None"
    using ik0 n0 by (fastforce simp: item_keys_assigned_def map_of_eq_None_iff)
  have not_key: "?n + j \<notin> set (getAllKeys sid s)"
    using ik by (fastforce simp: item_keys_assigned_def set_getAllKeys)
  have after: "progress s (?n + j) = None
       \<and> store_get (items (snd ?res)) (?n + j) = Some (new_item (clock j) sid (recs ! j))
       \<and> progress (snd ?res) (?n + j) = Some (new_progress (recs ! j))"
    if ok: "fst ?res = Inr ()"
  proof -
    have nc: "\<not> collides recs ?s0"
      using ok by (simp add: importItems_resolves_iff)
    then have "progress ?s0 (items_next ?s0 + j) = None"
      using j unfolding collides_def by blast
    then have p: "progress s (?n + j) = None"
      using not_key by (simp add: clear_fields split: if_splits)
    have its: "items (snd ?res) = items ?s0 @ new_rows clock sid 0 ?n recs"
      using nc n0 by (simp add: importItems_closed_form Let_def)
    have row: "store_get (items (snd ?res)) (?n + j) = Some (new_item (clock j) sid (recs ! j))"
      using old0 map_of_new_rows [OF j, of clock sid 0 ?n]
      by (simp add: its store_get_def map_add_def)
    have "map_of (zip [?n..<?n + length recs] recs) ([?n..<?n + length recs] ! j) = Some (recs ! j)"
      using j by (intro map_of_zip_nth) auto
    then have zipj: "map_of (zip [?n..<?n + length recs] recs) (?n + j) = Some (recs ! j)"
      using j by simp
    have "progress (snd ?res) (?n + j) = Some (new_progress (recs ! j))"
      using nc n0 zipj by (simp add: importItems_closed_form Let_def)
    with p row show ?thesis by simp
  qed
  show ?thesis
    using resolves old after importItems_ignores_r_id [of clock sid g recs clr s]
    by (simp add: store_get_def new_item_def new_progress_def)
qed


theorem importItems_progress_rows_witness:
  "item_keys_assigned two_subjects_db
   \<and> no_early_progress two_subjects_db
   \<and> length [restored_record, plain_record (js ''fish'') (js ''sakana'')] = 2
   \<and> items_next two_subjects_db = 4
   \<and> fst (importItems (\<lambda>i. 80 + i) 2
          [restored_record, plain_record (js ''fish'') (js ''sakana'')] False two_subjects_db) = Inr ()
   \<and> store_get (items (snd (importItems (\<lambda>i. 80 + i) 2
          [restored_record, plain_record (js ''fish'') (js ''sakana'')] False two_subjects_db))) 4
       = Some \<lparr>i_subject_id = 2, i_front = js ''A'', i_front_info = [], i_back = js ''B'',
               i_back_info = js ''b'', i_created_at = 80\<rparr>
   \<and> progress (snd (importItems (\<lambda>i. 80 + i) 2
          [restored_record, plain_record (js ''fish'') (js ''sakana'')] False two_subjects_db)) 4
       = Some \<lparr>level = 2, last_studied = 100\<rparr>
   \<and> progress (snd (importItems (\<lambda>i. 80 + i) 2
          [restored_record, plain_record (js ''fish'') (js ''sakana'')] False two_subjects_db)) 5
       = Some \<lparr>level = 0, last_studied = 0\<rparr>"
proof -
  let ?recs = "[restored_record, plain_record (js ''fish'') (js ''sakana'')]"
  have n: "items_next two_subjects_db = 4"
    by (simp add: two_subjects_db_eq)
  have l0: "0 < length ?recs" and l1: "1 < length ?recs"
    by simp_all
  show ?thesis
    using importItems_progress_rows [OF two_subjects_db_keys(1) l0, of "\<lambda>i. 80 + i" 2 False]
      importItems_progress_rows [OF two_subjects_db_keys(1) l1, of "\<lambda>i. 80 + i" 2 False]
      two_subjects_db_keys
    by (simp add: n restored_record_def plain_record_def)
qed

section \<open>The playlist in a fixed order\<close>

lemma three_cards_id_asc:
  "refreshPlaylist [0, 1, 2] (js ''id_asc'') three_cards
   = three_cards\<lparr>targetLevels := [0, 1, 2], sortMode := js ''id_asc'', isRandom := False,
       playlist := [flash_card 1 0 50, flash_card 2 1 0, flash_card 3 2 20], currentIndex := 0\<rparr>"
  by (simp add: refreshPlaylist_def three_cards_def flash_card_def js_def Let_def)

lemma getNextItem_fixed:
  "\<not> isRandom a \<Longrightarrow> playlist a \<noteq> [] \<Longrightarrow>
   getNextItem a =
     (Item (playlist a ! (if length (playlist a) \<le> currentIndex a then 0 else currentIndex a)),
      a\<lparr>currentIndex := (if length (playlist a) \<le> currentIndex a then 0 else currentIndex a) + 1\<rparr>)"
  by (simp add: getNextItem_def Let_def)

lemma nexts_fixed:
  "\<not> isRandom a \<Longrightarrow> playlist a \<noteq> [] \<Longrightarrow> currentIndex a \<le> length (playlist a) \<Longrightarrow>
   fst (nexts n a)
     = map (\<lambda>i. Item (playlist a ! ((currentIndex a + i) mod length (playlist a)))) [0..<n]
   \<and> playlist (snd (nexts n a)) = playlist a
   \<and> \<not> isRandom (snd (nexts n a))
   \<and> currentIndex (snd (nexts n a)) \<le> length (playlist a)"
proof (induction n arbitrary: a)
  case 0
  then show ?case by simp
next
  case (Suc n)
  let ?N = "length (playlist a)"
  let ?c = "if ?N \<le> currentIndex a then 0 else currentIndex a"
  let ?a1 = "a\<lparr>currentIndex := ?c + 1\<rparr>"
  have N: "0 < ?N" using Suc.prems by simp
  have g: "getNextItem a = (Item (playlist a ! ?c), ?a1)"
    using Suc.prems by (simp add: getNextItem_fixed)
  have c: "?c = currentIndex a mod ?N"
    using Suc.prems by (auto simp: le_antisym)
  have "?c < ?N"
    using N by (simp add: not_le)
  then have "?c + 1 \<le> ?N"
    by linarith
  then have pre: "\<not> isRandom ?a1" "playlist ?a1 \<noteq> []" "currentIndex ?a1 \<le> length (playlist ?a1)"
    using Suc.prems(1,2) by simp_all
  note IH = Suc.IH [OF pre]
  have shift: "(currentIndex ?a1 + i) mod ?N = (currentIndex a + Suc i) mod ?N" for i
  proof -
    have "(?c + 1 + i) mod ?N = (currentIndex a mod ?N + (1 + i)) mod ?N"
      using c by (simp only: add.assoc)
    also have "\<dots> = (currentIndex a + (1 + i)) mod ?N"
      by (rule mod_add_left_eq)
    finally show ?thesis by simp
  qed
  have "fst (nexts (Suc n) a) = Item (playlist a ! ?c) # fst (nexts n ?a1)"
    by (simp add: g split_beta)
  also have "\<dots> = Item (playlist a ! (currentIndex a mod ?N))
                 # map (\<lambda>i. Item (playlist a ! ((currentIndex a + Suc i) mod ?N))) [0..<n]"
    using IH c shift by simp
  also have "\<dots> = map (\<lambda>i. Item (playlist a ! ((currentIndex a + i) mod ?N))) [0..<Suc n]"
    by (simp add: upt_conv_Cons map_Suc_upt [symmetric] comp_def del: upt_Suc)
  finally have first: "fst (nexts (Suc n) a)
     = map (\<lambda>i. Item (playlist a ! ((currentIndex a + i) mod ?N))) [0..<Suc n]" .
  have rest: "snd (nexts (Suc n) a) = snd (nexts n ?a1)"
    by (simp add: g split_beta)
  show ?case
    using first rest IH by simp
qed


lemma refreshPlaylist_fixed:
  assumes "mode \<noteq> js ''random''" and "playlist (refreshPlaylist levels mode a) \<noteq> []"
  shows "\<not> isRandom (refreshPlaylist levels mode a)"
    and "currentIndex (refreshPlaylist levels mode a) = 0"
  using assms by (auto simp: refreshPlaylist_def Let_def split: if_splits)

text \<open>
  C5. A playlist built by \<open>refreshPlaylist\<close> in a mode other than \<open>random\<close> and not
  empty is returned by \<open>getNextItem\<close> round and round: the call number \<open>i\<close> (from 0)
  returns the element at \<open>i mod length\<close>, and the playlist never changes. Whenever the
  cursor is at or past the end of such a playlist, the call returns the first element
  and leaves the cursor at 1.
\<close>

theorem getNextItem_fixed_order_repeats:
  assumes "mode \<noteq> js ''random''" and "playlist (refreshPlaylist levels mode a) \<noteq> []"
  shows "fst (nexts n (refreshPlaylist levels mode a))
           = map (\<lambda>i. Item (playlist (refreshPlaylist levels mode a)
                                ! (i mod length (playlist (refreshPlaylist levels mode a)))))
               [0..<n]
       \<and> playlist (snd (nexts n (refreshPlaylist levels mode a)))
           = playlist (refreshPlaylist levels mode a)
       \<and> (\<forall>b. \<not> isRandom b \<and> playlist b \<noteq> [] \<and> length (playlist b) \<le> currentIndex b \<longrightarrow>
              getNextItem b = (Item (playlist b ! 0), b\<lparr>currentIndex := 1\<rparr>))"
proof -
  let ?a = "refreshPlaylist levels mode a"
  have "\<not> isRandom ?a" and c: "currentIndex ?a = 0"
    using assms by (rule refreshPlaylist_fixed)+
  then have "fst (nexts n ?a)
       = map (\<lambda>i. Item (playlist ?a ! ((currentIndex ?a + i) mod length (playlist ?a)))) [0..<n]
     \<and> playlist (snd (nexts n ?a)) = playlist ?a"
    using nexts_fixed [of ?a n] assms(2) by simp
  moreover have "getNextItem b = (Item (playlist b ! 0), b\<lparr>currentIndex := 1\<rparr>)"
    if "\<not> isRandom b \<and> playlist b \<noteq> [] \<and> length (playlist b) \<le> currentIndex b" for b
    using that by (simp add: getNextItem_fixed)
  ultimately show ?thesis
    by (simp add: c)
qed

theorem getNextItem_fixed_order_repeats_witness:
  "js ''id_asc'' \<noteq> js ''random''
   \<and> playlist (refreshPlaylist [0, 1, 2] (js ''id_asc'') three_cards)
       = [flash_card 1 0 50, flash_card 2 1 0, flash_card 3 2 20]
   \<and> fst (nexts 4 (refreshPlaylist [0, 1, 2] (js ''id_asc'') three_cards))
       = [Item (flash_card 1 0 50), Item (flash_card 2 1 0), Item (flash_card 3 2 20), Item (flash_card 1 0 50)]
   \<and> map v_id [flash_card 1 0 50, flash_card 2 1 0, flash_card 3 2 20, flash_card 1 0 50] = [1, 2, 3, 1]"
proof -
  have m: "js ''id_asc'' \<noteq> js ''random''"
    by (simp add: js_def)
  have p: "playlist (refreshPlaylist [0, 1, 2] (js ''id_asc'') three_cards)
           = [flash_card 1 0 50, flash_card 2 1 0, flash_card 3 2 20]"
    by (simp add: three_cards_id_asc)
  then have ne: "playlist (refreshPlaylist [0, 1, 2] (js ''id_asc'') three_cards) \<noteq> []"
    by simp
  have u: "[0..<4] = [0, 1, 2, 3]"
    by (simp add: upt_rec)
  show ?thesis
    using getNextItem_fixed_order_repeats [OF m ne, of 4] m p
    by (simp add: u flash_card_def)
qed

lemma refreshPlaylist_cursor:
  "currentIndex (refreshPlaylist levels mode a)
   = (if filter (\<lambda>item. v_level item \<in> set levels) (a_items a) = [] then currentIndex a else 0)"
  by (simp add: refreshPlaylist_def Let_def split_beta)


lemma three_cards_played:
  "snd (nexts 3 (refreshPlaylist [0, 1, 2] (js ''id_asc'') three_cards))
   = three_cards\<lparr>targetLevels := [0, 1, 2], sortMode := js ''id_asc'', isRandom := False,
       playlist := [flash_card 1 0 50, flash_card 2 1 0, flash_card 3 2 20], currentIndex := 3\<rparr>"
  by (simp add: three_cards_id_asc numeral_3_eq_3 getNextItem_def)

text \<open>
  C2 fails on the code. The three items were played once in \<open>id_asc\<close>, which leaves the
  cursor at 3; a refresh with no level ticked empties the playlist and returns before
  the line that resets the cursor, which stays at 3.
\<close>

theorem refreshPlaylist_empty_keeps_cursor:
  "currentIndex (snd (nexts 3 (refreshPlaylist [0, 1, 2] (js ''id_asc'') three_cards))) = 3
   \<and> playlist (refreshPlaylist [] (js ''id_asc'')
         (snd (nexts 3 (refreshPlaylist [0, 1, 2] (js ''id_asc'') three_cards)))) = []
   \<and> currentIndex (refreshPlaylist [] (js ''id_asc'')
         (snd (nexts 3 (refreshPlaylist [0, 1, 2] (js ''id_asc'') three_cards)))) = 3"
  unfolding three_cards_played
  by (simp add: refreshPlaylist_def three_cards_def)

section \<open>The playlist in random order\<close>

lemma draws_in_range_stl: "draws_in_range rs \<Longrightarrow> draws_in_range (stl rs)"
  unfolding draws_in_range_def
proof (intro allI impI)
  fix k n :: nat
  assume "\<forall>k n. 0 < n \<longrightarrow> (rs !! k) n < n" and "0 < n"
  then have "(rs !! Suc k) n < n" by blast
  then show "(stl rs !! k) n < n" by simp
qed

lemma shuffle_loop_perm:
  "n \<le> length array \<Longrightarrow> draws_in_range rs \<Longrightarrow>
   mset (fst (shuffle_loop n rs array)) = mset array
   \<and> draws_in_range (snd (shuffle_loop n rs array))"
proof (induction n arbitrary: rs array)
  case 0
  then show ?case by simp
next
  case (Suc n)
  let ?r = "shd rs (Suc n)"
  let ?arr = "array[n := array ! ?r, ?r := array ! n]"
  have "(rs !! 0) (Suc n) < Suc n"
    using Suc.prems(2) unfolding draws_in_range_def by blast
  then have "?r < Suc n" by simp
  then have r: "?r < length array" and n: "n < length array"
    using Suc.prems(1) by simp_all
  have sw: "mset ?arr = mset array"
    using r n by (rule mset_swap)
  have "n \<le> length ?arr" using n by simp
  from Suc.IH [OF this draws_in_range_stl [OF Suc.prems(2)]] sw
  show ?case by (simp add: Let_def)
qed

lemma shuffle_perm:
  "draws_in_range rs \<Longrightarrow>
   mset (fst (shuffle rs array)) = mset array \<and> draws_in_range (snd (shuffle rs array))"
  by (simp add: shuffle_def shuffle_loop_perm)

lemma refreshPlaylist_random:
  assumes "draws_in_range (math_random a)"
    and "filter (\<lambda>item. v_level item \<in> set levels) (a_items a) \<noteq> []"
  shows "random_session levels (a_items a) (refreshPlaylist levels (js ''random'') a)"
    and "currentIndex (refreshPlaylist levels (js ''random'') a) = 0"
  using assms shuffle_perm [OF assms(1), of "filter (\<lambda>item. v_level item \<in> set levels) (a_items a)"]
  by (simp_all add: refreshPlaylist_def random_session_def Let_def split_beta)

lemma nexts_run:
  "currentIndex b + n \<le> length (playlist b) \<Longrightarrow>
   nexts n b = (map Item (take n (drop (currentIndex b) (playlist b))),
                b\<lparr>currentIndex := currentIndex b + n\<rparr>)"
proof (induction n arbitrary: b)
  case 0
  then show ?case by simp
next
  case (Suc n)
  let ?c = "currentIndex b"
  let ?b1 = "b\<lparr>currentIndex := ?c + 1\<rparr>"
  have c: "?c < length (playlist b)" using Suc.prems by simp
  then have ne: "playlist b \<noteq> []" by auto
  have g: "getNextItem b = (Item (playlist b ! ?c), ?b1)"
    using c ne by (simp add: getNextItem_def)
  have "currentIndex ?b1 + n \<le> length (playlist ?b1)"
    using Suc.prems by simp
  from Suc.IH [OF this]
  have r: "nexts n ?b1 = (map Item (take n (drop (Suc ?c) (playlist b))),
                          b\<lparr>currentIndex := ?c + Suc n\<rparr>)"
    by simp
  have "take (Suc n) (drop ?c (playlist b))
        = playlist b ! ?c # take n (drop (Suc ?c) (playlist b))"
    using c by (simp add: Cons_nth_drop_Suc [symmetric])
  then show ?case
    using r by (simp add: g)
qed

lemma nexts_add:
  "nexts (m + n) a
   = (fst (nexts m a) @ fst (nexts n (snd (nexts m a))), snd (nexts n (snd (nexts m a))))"
  by (induction m arbitrary: a) (simp_all add: split_beta)


lemma random_cycle:
  assumes rs: "random_session levels its b"
    and ne: "filter (\<lambda>item. v_level item \<in> set levels) its \<noteq> []"
  shows "\<exists>p. fst (nexts (length (playlist b)) b) = map Item p
             \<and> mset p = mset (filter (\<lambda>item. v_level item \<in> set levels) its)"
    and "random_session levels its (snd (nexts (length (playlist b)) b))"
    and "length (playlist (snd (nexts (length (playlist b)) b))) = length (playlist b)"
proof -
  let ?cands = "filter (\<lambda>item. v_level item \<in> set levels) its"
  let ?N = "length (playlist b)"
  have len: "?N = length ?cands"
    using rs by (metis random_session_def size_mset)
  have pne: "playlist b \<noteq> []"
    using len ne by auto
  define b1 where "b1 = (if currentIndex b = 0 then b
                         else refreshPlaylist levels (js ''random'') (b\<lparr>currentIndex := 0\<rparr>))"
  have b1: "random_session levels its b1 \<and> currentIndex b1 = 0"
  proof (cases "currentIndex b = 0")
    case True
    then show ?thesis using rs by (simp add: b1_def)
  next
    case False
    have "draws_in_range (math_random (b\<lparr>currentIndex := 0\<rparr>))"
      and "filter (\<lambda>item. v_level item \<in> set levels) (a_items (b\<lparr>currentIndex := 0\<rparr>)) \<noteq> []"
      using rs ne by (simp_all add: random_session_def)
    from refreshPlaylist_random [OF this] False rs show ?thesis
      by (simp add: b1_def random_session_def)
  qed
  have len1: "length (playlist b1) = ?N"
    using b1 len by (metis random_session_def size_mset)
  have same: "nexts ?N b = nexts ?N b1"
  proof (cases "currentIndex b = 0")
    case True
    then show ?thesis by (simp add: b1_def)
  next
    case False
    then have ci: "currentIndex b = ?N"
      using rs by (simp add: random_session_def)
    have r: "b1 = refreshPlaylist (targetLevels b) (sortMode b) (b\<lparr>currentIndex := 0\<rparr>)"
      using False rs by (simp add: b1_def random_session_def)
    have "playlist b1 \<noteq> []" using len1 pne by auto
    then have g1: "getNextItem b1 = (Item (playlist b1 ! 0), b1\<lparr>currentIndex := 1\<rparr>)"
      using b1 by (simp add: getNextItem_def)
    have "isRandom b" using rs by (simp add: random_session_def)
    then have g: "getNextItem b = (Item (playlist b1 ! 0), b1\<lparr>currentIndex := 1\<rparr>)"
      using pne ci b1 \<open>playlist b1 \<noteq> []\<close>
      by (simp add: getNextItem_def r [symmetric] Let_def)
    obtain m where m: "?N = Suc m"
      using pne by (cases "playlist b") auto
    show ?thesis
      by (simp add: m g g1)
  qed
  have run: "nexts ?N b1 = (map Item (playlist b1), b1\<lparr>currentIndex := ?N\<rparr>)"
    using nexts_run [of b1 ?N] b1 len1 by simp
  have "mset (playlist b1) = mset ?cands"
    using b1 by (simp add: random_session_def)
  then show "\<exists>p. fst (nexts ?N b) = map Item p \<and> mset p = mset ?cands"
    using same run by auto
  show "random_session levels its (snd (nexts ?N b))"
    using b1 len1 by (simp add: same run random_session_def)
  show "length (playlist (snd (nexts ?N b))) = ?N"
    using len1 by (simp add: same run)
qed

lemma random_cycles:
  assumes rs: "random_session levels its b"
    and ne: "filter (\<lambda>item. v_level item \<in> set levels) its \<noteq> []"
  shows "random_session levels its (snd (nexts (c * length (playlist b)) b))
         \<and> length (playlist (snd (nexts (c * length (playlist b)) b))) = length (playlist b)"
proof (induction c)
  case 0
  then show ?case using rs by simp
next
  case (Suc c)
  let ?N = "length (playlist b)"
  let ?b = "snd (nexts (c * ?N) b)"
  have l: "length (playlist ?b) = ?N" and r: "random_session levels its ?b"
    using Suc.IH by simp_all
  have "snd (nexts (Suc c * ?N) b) = snd (nexts ?N ?b)"
    using nexts_add [of "c * ?N" ?N b] by (simp add: add.commute)
  then show ?case
    using random_cycle(2,3) [OF r ne] l by simp
qed


lemma draws_in_range_half: "draws_in_range (sconst (\<lambda>n. n div 2))"
  by (simp add: draws_in_range_def)

lemma shuffle_half:
  "shuffle (sconst (\<lambda>n. n div 2)) [flash_card 1 0 50, flash_card 2 1 0, flash_card 3 2 20]
   = ([flash_card 1 0 50, flash_card 3 2 20, flash_card 2 1 0], sconst (\<lambda>n. n div 2))"
  by (simp add: shuffle_def numeral_3_eq_3 Let_def)


lemma half_fields:
  "playlist (half_session c) = [flash_card 1 0 50, flash_card 3 2 20, flash_card 2 1 0]"
  "currentIndex (half_session c) = c"
  "isRandom (half_session c)"
  "targetLevels (half_session c) = [0, 1, 2]"
  "sortMode (half_session c) = js ''random''"
  "(half_session c)\<lparr>currentIndex := c'\<rparr> = half_session c'"
  by (simp_all add: half_session_def)

lemma half_refresh:
  "refreshPlaylist [0, 1, 2] (js ''random'') (three_cards\<lparr>math_random := sconst (\<lambda>n. n div 2)\<rparr>)
   = half_session 0"
  by (simp add: refreshPlaylist_def three_cards_def Let_def shuffle_def numeral_3_eq_3
      half_session_def flash_card_def)

lemma half_refresh_again:
  "refreshPlaylist [0, 1, 2] (js ''random'') (half_session c) = half_session 0"
  by (simp add: refreshPlaylist_def Let_def shuffle_def numeral_3_eq_3
      half_session_def flash_card_def)

lemma half_first_cycle:
  "nexts 3 (half_session 0)
   = ([Item (flash_card 1 0 50), Item (flash_card 3 2 20), Item (flash_card 2 1 0)], half_session 3)"
  by (simp add: numeral_3_eq_3 getNextItem_def half_fields)

lemma half_second_cycle:
  "nexts 3 (half_session 3)
   = ([Item (flash_card 1 0 50), Item (flash_card 3 2 20), Item (flash_card 2 1 0)], half_session 3)"
proof -
  have "getNextItem (half_session 3) = (Item (flash_card 1 0 50), half_session 1)"
    by (simp add: getNextItem_def half_fields half_refresh_again Let_def)
  moreover have "nexts 2 (half_session 1)
        = ([Item (flash_card 3 2 20), Item (flash_card 2 1 0)], half_session 3)"
    by (simp add: numeral_2_eq_2 numeral_3_eq_3 getNextItem_def half_fields)
  ultimately show ?thesis
    by (simp add: numeral_3_eq_3 numeral_2_eq_2)
qed

text \<open>
  C9. When every index that \<open>shuffle\<close> draws is below the \<open>currentIndex\<close> it is drawn
  for (as it is with the numbers of \<open>Math.random()\<close>) and some item passes the filter,
  the playlist that \<open>refreshPlaylist\<close> builds in \<open>random\<close> mode has exactly the
  candidates, each as often as the candidates have it. With \<open>N\<close> candidates, the \<open>N\<close>
  calls of \<open>getNextItem\<close> of every round (the round that follows \<open>c * N\<close> earlier
  calls; every round but the first starts with the reshuffle at the wrap-around) return
  such an arrangement again: every id as often as among the candidates, which is once
  when the ids of the items are distinct.
\<close>

theorem random_playlist_permutation:
  assumes "draws_in_range (math_random a)"
    and "filter (\<lambda>item. v_level item \<in> set levels) (a_items a) \<noteq> []"
  shows "mset (playlist (refreshPlaylist levels (js ''random'') a))
           = mset (filter (\<lambda>item. v_level item \<in> set levels) (a_items a))
       \<and> (\<exists>p. fst (nexts (length (filter (\<lambda>item. v_level item \<in> set levels) (a_items a)))
                     (snd (nexts (c * length (filter (\<lambda>item. v_level item \<in> set levels) (a_items a)))
                            (refreshPlaylist levels (js ''random'') a))))
                  = map Item p
                \<and> mset p = mset (filter (\<lambda>item. v_level item \<in> set levels) (a_items a))
                \<and> mset (map v_id p)
                    = mset (map v_id (filter (\<lambda>item. v_level item \<in> set levels) (a_items a)))
                \<and> (distinct (map v_id (a_items a)) \<longrightarrow> distinct (map v_id p)))"
proof -
  let ?cands = "filter (\<lambda>item. v_level item \<in> set levels) (a_items a)"
  let ?a = "refreshPlaylist levels (js ''random'') a"
  have rs: "random_session levels (a_items a) ?a"
    using assms by (rule refreshPlaylist_random)
  then have pl: "mset (playlist ?a) = mset ?cands"
    by (simp add: random_session_def)
  then have N: "length (playlist ?a) = length ?cands"
    by (metis size_mset)
  let ?b = "snd (nexts (c * length ?cands) ?a)"
  have b: "random_session levels (a_items a) ?b" and lb: "length (playlist ?b) = length ?cands"
    using random_cycles [OF rs assms(2), of c] N by simp_all
  from random_cycle(1) [OF b assms(2)] lb
  obtain p where p: "fst (nexts (length ?cands) ?b) = map Item p" "mset p = mset ?cands"
    by auto
  have ids: "mset (map v_id p) = mset (map v_id ?cands)"
    using p(2) by (metis mset_map)
  have "distinct (map v_id p)" if "distinct (map v_id (a_items a))"
  proof -
    have "distinct (map v_id ?cands)"
      using that by (rule distinct_map_filter)
    then show ?thesis
      using ids by (metis mset_eq_imp_distinct_iff)
  qed
  with p ids pl show ?thesis by blast
qed

theorem random_playlist_permutation_witness:
  "draws_in_range (math_random (three_cards\<lparr>math_random := sconst (\<lambda>n. n div 2)\<rparr>))
   \<and> filter (\<lambda>item. v_level item \<in> set [0, 1, 2])
         (a_items (three_cards\<lparr>math_random := sconst (\<lambda>n. n div 2)\<rparr>)) \<noteq> []
   \<and> playlist (refreshPlaylist [0, 1, 2] (js ''random'')
         (three_cards\<lparr>math_random := sconst (\<lambda>n. n div 2)\<rparr>))
       = [flash_card 1 0 50, flash_card 3 2 20, flash_card 2 1 0]
   \<and> fst (nexts 3 (refreshPlaylist [0, 1, 2] (js ''random'')
         (three_cards\<lparr>math_random := sconst (\<lambda>n. n div 2)\<rparr>)))
       = [Item (flash_card 1 0 50), Item (flash_card 3 2 20), Item (flash_card 2 1 0)]
   \<and> fst (nexts 3 (snd (nexts 3 (refreshPlaylist [0, 1, 2] (js ''random'')
         (three_cards\<lparr>math_random := sconst (\<lambda>n. n div 2)\<rparr>)))))
       = [Item (flash_card 1 0 50), Item (flash_card 3 2 20), Item (flash_card 2 1 0)]"
proof -
  let ?a = "three_cards\<lparr>math_random := sconst (\<lambda>n. n div 2)\<rparr>"
  have u: "draws_in_range (math_random ?a)"
    by (simp add: draws_in_range_half)
  have f: "filter (\<lambda>item. v_level item \<in> set [0, 1, 2]) (a_items ?a) \<noteq> []"
    by (simp add: three_cards_def flash_card_def)
  show ?thesis
    using random_playlist_permutation [OF u f, of 1] u f
    by (simp add: half_refresh half_first_cycle half_second_cycle half_fields)
qed

section \<open>The index that the program draws is in range\<close>

text \<open>
  The largest double below 1 is \<open>1 - 2 ^ - 53\<close>. For every number \<open>u\<close> from 0 up to it
  and every \<open>currentIndex\<close> above 0, the index \<open>Math.floor(u * currentIndex)\<close> computed
  with the rounded product is below \<open>currentIndex\<close>: a random source made of such
  numbers has the property \<open>draws_in_range\<close>, and \<open>shuffle\<close> run on it rearranges the
  array. The rounded product does differ from the exact one: with the double nearest to
  4 / 7 and seven items the index is 4, with the double nearest to 1 / 3 and three
  items it is 1 (the exact products give 3 and 0).
\<close>

lemma round_ties_even_le: "of_int (round_ties_even y) \<le> y + 1 / 2"
proof (cases "y - of_int \<lfloor>y\<rfloor> < 1 / 2")
  case True
  then have "real_of_int (round_ties_even y) = of_int \<lfloor>y\<rfloor>"
    by (simp add: round_ties_even_def Let_def)
  with of_int_floor_le [of y] show ?thesis by linarith
next
  case False
  have "round_ties_even y \<le> \<lfloor>y\<rfloor> + 1"
    by (simp add: round_ties_even_def Let_def)
  then have "real_of_int (round_ties_even y) \<le> of_int \<lfloor>y\<rfloor> + 1"
    by linarith
  with False show ?thesis by linarith
qed

lemma double_ulp_pos: "0 < double_ulp x"
  by (simp add: double_ulp_def)

lemma double_round_below:
  assumes x: "0 < x" and n: "1 \<le> n" and le: "x \<le> n * (1 - 1 / 2 ^ 53)"
  shows "double_round x < n"
proof (rule ccontr)
  let ?b = "max \<lfloor>log 2 x\<rfloor> (- 1022)"
  let ?s = "double_ulp x"
  assume "\<not> double_round x < n"
  then have ge: "n \<le> of_int (round_ties_even (x / ?s)) * ?s"
    using x by (simp add: double_round_def)
  have s: "0 < ?s" by (rule double_ulp_pos)
  have "of_int (round_ties_even (x / ?s)) * ?s \<le> (x / ?s + 1 / 2) * ?s"
    using round_ties_even_le [of "x / ?s"] s by (intro mult_right_mono) simp_all
  also have "\<dots> = x + ?s / 2"
    using s by (simp add: field_simps)
  finally have "n \<le> x + ?s / 2" using ge by simp
  with le have "n / 2 ^ 53 \<le> ?s / 2" by (simp add: field_simps)
  then have "n \<le> ?s * 2 ^ 52" by (simp add: field_simps)
  also have "?s * 2 ^ 52 = 2 powr of_int ?b"
  proof -
    have "(2::real) ^ 52 = 2 powr 52" by simp
    then show ?thesis
      unfolding double_ulp_def by (simp only: powr_add [symmetric]) simp
  qed
  finally have nb: "n \<le> 2 powr of_int ?b" .
  show False
  proof (cases "- 1022 \<le> \<lfloor>log 2 x\<rfloor>")
    case True
    then have b: "?b = \<lfloor>log 2 x\<rfloor>" by simp
    have "2 powr of_int \<lfloor>log 2 x\<rfloor> \<le> x"
      using x by (subst le_log_iff [symmetric]) simp_all
    moreover have "x < n" using le n by (simp add: field_simps) 
    ultimately show False using nb b by simp
  next
    case False
    then have b: "?b = - 1022" by simp
    have "(2::real) powr of_int (- 1022) < 2 powr 0"
      by (intro powr_less_mono) simp_all
    then show False using nb n b by simp
  qed
qed


lemma random_index_below:
  assumes "0 \<le> u" and "u \<le> 1 - 1 / 2 ^ 53" and "0 < n"
  shows "random_index u n < n"
proof (cases "u * real n = 0")
  case True
  then show ?thesis using assms(3) by (simp add: random_index_def double_round_def)
next
  case False
  moreover have "0 \<le> u * real n"
    using assms(1) by simp
  ultimately have x: "0 < u * real n"
    by arith
  have "u * real n \<le> (1 - 1 / 2 ^ 53) * real n"
    using assms(2) by (intro mult_right_mono) simp_all
  then have "u * real n \<le> real n * (1 - 1 / 2 ^ 53)"
    by (simp add: mult.commute)
  moreover have "1 \<le> real n" using assms(3) by simp
  ultimately have "double_round (u * real n) < real n"
    using x by (intro double_round_below)
  then have "\<lfloor>double_round (u * real n)\<rfloor> < int n"
    by (simp add: floor_less_iff)
  moreover have "nat i < n" if "i < int n" for i
    using that assms(3) by linarith
  ultimately show ?thesis
    unfolding random_index_def by blast
qed

lemma doubles_draws_in_range:
  assumes "\<forall>k. 0 \<le> us !! k \<and> us !! k \<le> 1 - 1 / 2 ^ 53"
  shows "draws_in_range (smap random_index us)"
  using assms by (simp add: draws_in_range_def random_index_below)

lemma double_ulp_binade:
  assumes "2 powr of_int e \<le> x" and "x < 2 powr of_int (e + 1)" and "- 1022 \<le> e"
  shows "double_ulp x = 2 powr (of_int e - 52)"
proof -
  have x: "0 < x"
    using assms(1) by (rule less_le_trans [rotated]) simp
  have "of_int e \<le> log 2 x"
    using assms(1) x by (simp add: le_log_iff)
  moreover have "log 2 x < of_int (e + 1)"
    using assms(2) x by (simp add: log_less_iff)
  ultimately have "\<lfloor>log 2 x\<rfloor> = e"
    by (intro floor_unique) simp_all
  then show ?thesis
    using assms(3) by (simp add: double_ulp_def)
qed

lemma double_round_binade:
  assumes "2 powr of_int e \<le> x" and "x < 2 powr of_int (e + 1)" and "- 1022 \<le> e"
  shows "double_round x
         = of_int (round_ties_even (x / 2 powr (of_int e - 52))) * 2 powr (of_int e - 52)"
proof -
  have "0 < x"
    using assms(1) by (rule less_le_trans [rotated]) simp
  then show ?thesis
    by (simp add: double_round_def double_ulp_binade [OF assms])
qed

lemma random_index_four_sevenths:
  "random_index (2573485501354569 / 2 ^ 52) 7 = 4"
proof -
  let ?x = "18014398509481983 / 4503599627370496 :: real"
  have "double_round ?x
        = of_int (round_ties_even (?x / 2 powr (of_int 1 - 52))) * 2 powr (of_int 1 - 52)"
    by (rule double_round_binade) simp_all
  also have "\<dots> = of_int (round_ties_even (18014398509481983 / 2)) * (1 / 2 ^ 51)"
    by (simp add: powr_neg_numeral)
  also have "round_ties_even (18014398509481983 / 2) = 9007199254740992"
    by (simp add: round_ties_even_def Let_def)
  finally have "double_round ?x = 4" by simp
  then show ?thesis
    by (simp add: random_index_def)
qed

lemma random_index_one_third:
  "random_index (6004799503160661 / 2 ^ 54) 3 = 1"
proof -
  let ?x = "18014398509481983 / 18014398509481984 :: real"
  have "double_round ?x
        = of_int (round_ties_even (?x / 2 powr (of_int (- 1) - 52))) * 2 powr (of_int (- 1) - 52)"
    by (rule double_round_binade) (simp_all add: powr_neg_one)
  also have "\<dots> = of_int (round_ties_even (18014398509481983 / 2)) * (1 / 2 ^ 53)"
    by (simp add: powr_neg_numeral)
  also have "round_ties_even (18014398509481983 / 2) = 9007199254740992"
    by (simp add: round_ties_even_def Let_def)
  finally have "double_round ?x = 1" by simp
  then show ?thesis
    by (simp add: random_index_def)
qed

lemma random_index_half:
  "random_index (1 / 2) 3 = 3 div 2"
  "random_index (1 / 2) 2 = 2 div 2"
  "random_index (1 / 2) 1 = 1 div 2"
proof -
  have "double_round (3 / 2)
        = of_int (round_ties_even (3 / 2 / 2 powr (of_int 0 - 52))) * 2 powr (of_int 0 - 52)"
    by (rule double_round_binade) simp_all
  also have "\<dots> = of_int (round_ties_even 6755399441055744) * (1 / 2 ^ 52)"
    by (simp add: powr_neg_numeral)
  also have "round_ties_even 6755399441055744 = 6755399441055744"
    by (simp add: round_ties_even_def Let_def)
  finally have dr: "double_round (3 / 2) = 3 / 2" by simp
  show "random_index (1 / 2) 3 = 3 div 2"
    by (simp add: random_index_def dr)
  have "double_round 1
        = of_int (round_ties_even (1 / 2 powr (of_int 0 - 52))) * 2 powr (of_int 0 - 52)"
    by (rule double_round_binade) simp_all
  also have "\<dots> = of_int (round_ties_even 4503599627370496) * (1 / 2 ^ 52)"
    by (simp add: powr_neg_numeral)
  also have "round_ties_even 4503599627370496 = 4503599627370496"
    by (simp add: round_ties_even_def Let_def)
  finally have dr: "double_round 1 = 1" by simp
  show "random_index (1 / 2) 2 = 2 div 2"
    by (simp add: random_index_def dr)
  have "double_round (1 / 2)
        = of_int (round_ties_even (1 / 2 / 2 powr (of_int (- 1) - 52))) * 2 powr (of_int (- 1) - 52)"
    by (rule double_round_binade) (simp_all add: powr_neg_one)
  also have "\<dots> = of_int (round_ties_even 4503599627370496) * (1 / 2 ^ 53)"
    by (simp add: powr_neg_numeral)
  also have "round_ties_even 4503599627370496 = 4503599627370496"
    by (simp add: round_ties_even_def Let_def)
  finally have dr: "double_round (1 / 2) = 1 / 2" by simp
  show "random_index (1 / 2) 1 = 1 div 2"
    by (simp add: random_index_def dr)
qed

lemma shuffle_of_doubles:
  assumes "\<forall>k. 0 \<le> us !! k \<and> us !! k \<le> 1 - 1 / 2 ^ 53"
  shows "mset (fst (shuffle (smap random_index us) array)) = mset array"
  using shuffle_perm [OF doubles_draws_in_range [OF assms], where array = array] by simp

section \<open>Backup: export, then import\<close>

lemma deck_db_eq:
  "deck_db =
     \<lparr>subjects = [(1, \<lparr>name = js ''Deck'', sub_settings = \<lparr>frontLang = None, backLang = None\<rparr>,
                        sub_created_at = 10\<rparr>)],
      subjects_next = 2,
      items = [(1, \<lparr>i_subject_id = 1, i_front = js ''A'', i_front_info = [],
                     i_back = js ''B'', i_back_info = [], i_created_at = 30\<rparr>)],
      items_next = 2,
      progress = [1 \<mapsto> \<lparr>level = 2, last_studied = 100\<rparr>]\<rparr>"
  by (simp add: deck_db_def db_ops)

lemma deck_session_eq:
  "deck_session =
     new_app\<lparr>a_subjects := subjects deck_db,
       currentSubject := Some (1, \<lparr>name = js ''Deck'',
                                   sub_settings = \<lparr>frontLang = None, backLang = None\<rparr>,
                                   sub_created_at = 10\<rparr>),
       lastSubjectId := Some 1,
       a_items := [\<lparr>v_id = 1, v_subject_id = 1, v_front = js ''A'', v_front_info = [],
                    v_back = js ''B'', v_back_info = [], v_level = 2, v_last_studied = 100\<rparr>]\<rparr>"
  by (simp add: deck_session_def selectSubject_def loadSubjects_def loadData_def
      getAllItemsWithProgress_def merged_def deck_db_eq)

lemma items_clear_none:
  "filter (\<lambda>(k, r). i_subject_id r = sid) (items (clearItemsBySubject sid s)) = []"
  by (auto simp: clear_fields set_getAllKeys filter_empty_conv)

lemma zip_upt_lookup:
  "j < length recs \<Longrightarrow> map_of (zip [n..<n + length recs] recs) (n + j) = Some (recs ! j)"
proof -
  assume j: "j < length recs"
  then have "map_of (zip [n..<n + length recs] recs) ([n..<n + length recs] ! j) = Some (recs ! j)"
    by (intro map_of_zip_nth) auto
  then show ?thesis using j by simp
qed

lemma find_append_None:
  "find P xs = None \<Longrightarrow> find P (xs @ ys) = find P ys"
  by (induction xs) (auto split: if_splits)

lemma imported_views:
  assumes ok: "fst (importItems clock sid (map as_record vs) True s) = Inr ()"
  shows "map content (getAllItemsWithProgress sid (snd (importItems clock sid (map as_record vs) True s)))
         = map content vs"
proof -
  let ?recs = "map as_record vs"
  let ?s0 = "clearItemsBySubject sid s"
  let ?n = "items_next s"
  let ?res = "importItems clock sid ?recs True s"
  have nc: "\<not> collides ?recs ?s0"
    using ok by (simp add: importItems_resolves_iff)
  have n0: "items_next ?s0 = ?n" by (simp add: clear_fields)
  have its: "items (snd ?res) = items ?s0 @ new_rows clock sid 0 ?n ?recs"
    using nc n0 by (simp add: importItems_closed_form Let_def)
  have pr: "progress (snd ?res) (?n + j) = Some (new_progress (?recs ! j))" if "j < length vs" for j
    using nc n0 that zip_upt_lookup [of j ?recs ?n]
    by (simp add: importItems_closed_form Let_def)
  have all_new: "filter (\<lambda>(k, r). i_subject_id r = sid) (new_rows clock sid 0 ?n ?recs)
                 = new_rows clock sid 0 ?n ?recs"
    by (auto simp: new_rows_def new_item_def filter_id_conv)
  have "getAllItemsWithProgress sid (snd ?res)
        = map (merged (snd ?res)) (new_rows clock sid 0 ?n ?recs)"
    by (simp add: getAllItemsWithProgress_def its items_clear_none all_new)
  also have "map content \<dots> = map (\<lambda>j. content (vs ! j)) [0..<length vs]"
    by (simp add: new_rows_def merged_def pr new_progress_def new_item_def as_record_def
        content_def)
  also have "\<dots> = map content (map ((!) vs) [0..<length vs])"
    by (simp only: map_map comp_def)
  also have "\<dots> = map content vs"
    by (simp only: map_nth)
  finally show ?thesis .
qed

lemma importSubjectBackup_export:
  fixes now :: nat
  assumes cs: "currentSubject a = Some (subjId, sub)"
    and sk: "subject_keys_assigned s"
  defines "doc \<equiv> \<lparr>version = 1,
                      b_subject = Some \<lparr>bs_name = name sub, bs_settings = Some (sub_settings sub)\<rparr>,
                      b_items = Some (map as_record (a_items a))\<rparr>"
    and "row \<equiv> \<lparr>name = name sub @ js '' (Imported)'', sub_settings = sub_settings sub,
                   sub_created_at = now\<rparr>"
  shows "exportSubjectBackup a = Some doc"
    and "store_get (subjects s) (subjects_next s) = None"
    and "subjects (snd (snd (importSubjectBackup now clock doc (a, s))))
         = subjects s @ [(subjects_next s, row)]"
    and "no_early_progress s \<longrightarrow> fst (importSubjectBackup now clock doc (a, s)) = True"
    and "fst (importSubjectBackup now clock doc (a, s)) = True \<longrightarrow>
           map content (getAllItemsWithProgress (subjects_next s)
               (snd (snd (importSubjectBackup now clock doc (a, s)))))
           = map content (a_items a)
         \<and> a_items (fst (snd (importSubjectBackup now clock doc (a, s))))
           = getAllItemsWithProgress (subjects_next s)
               (snd (snd (importSubjectBackup now clock doc (a, s))))
         \<and> currentSubject (fst (snd (importSubjectBackup now clock doc (a, s))))
           = Some (subjects_next s, row)"
proof -
  let ?newId = "subjects_next s"
  let ?s1 = "s\<lparr>subjects := subjects s @ [(subjects_next s, row)],
                subjects_next := subjects_next s + 1\<rparr>"
  define imp where "imp = importItems clock ?newId (map as_record (a_items a)) True ?s1"
  define s2 where "s2 = snd imp"
  let ?a2 = "selectSubject ?newId s2 (loadSubjects s2 a)"
  show "exportSubjectBackup a = Some doc"
    using cs by (simp add: exportSubjectBackup_def doc_def)
  have cr: "createSubject now (name sub @ js '' (Imported)'') (sub_settings sub) s = (?newId, ?s1)"
    by (simp add: createSubject_def row_def)
  have res: "importSubjectBackup now clock doc (a, s)
             = (case fst imp of Inl e \<Rightarrow> (False, a, s2) | Inr u \<Rightarrow> (True, ?a2, s2))"
    unfolding importSubjectBackup_def imp_def s2_def
    by (simp add: doc_def cr Let_def split: prod.splits sum.splits)
  have subs: "subjects s2 = subjects s @ [(?newId, row)]"
    by (simp add: s2_def imp_def importItems_subjects)
  show "store_get (subjects s) ?newId = None"
    using sk by (fastforce simp: subject_keys_assigned_def store_get_def map_of_eq_None_iff)
  show "subjects (snd (snd (importSubjectBackup now clock doc (a, s)))) = subjects s @ [(?newId, row)]"
    by (simp add: res subs split: sum.splits)
  show "no_early_progress s \<longrightarrow> fst (importSubjectBackup now clock doc (a, s)) = True"
  proof
    assume "no_early_progress s"
    then have "no_early_progress (clearItemsBySubject ?newId ?s1)"
      by (intro no_early_progress_clear) (simp add: no_early_progress_def)
    then have "fst imp = Inr ()"
      unfolding imp_def importItems_resolves_iff
      by (simp add: no_early_progress_no_collision)
    then show "fst (importSubjectBackup now clock doc (a, s)) = True"
      by (simp add: res)
  qed
  have none: "find (\<lambda>(k, sub). k = ?newId) (subjects s) = None"
    using sk by (fastforce simp: subject_keys_assigned_def find_None_iff)
  have fnd: "find (\<lambda>(k, sub). k = ?newId) (subjects s2) = Some (?newId, row)"
    by (simp add: subs find_append_None [OF none])
  have sel: "?a2 = a\<lparr>a_subjects := subjects s2, currentSubject := Some (?newId, row),
                    lastSubjectId := Some ?newId,
                    a_items := getAllItemsWithProgress ?newId s2\<rparr>"
    by (simp add: selectSubject_def loadSubjects_def fnd loadData_def)
  show "fst (importSubjectBackup now clock doc (a, s)) = True \<longrightarrow>
           map content (getAllItemsWithProgress ?newId
               (snd (snd (importSubjectBackup now clock doc (a, s)))))
           = map content (a_items a)
         \<and> a_items (fst (snd (importSubjectBackup now clock doc (a, s))))
           = getAllItemsWithProgress ?newId
               (snd (snd (importSubjectBackup now clock doc (a, s))))
         \<and> currentSubject (fst (snd (importSubjectBackup now clock doc (a, s))))
           = Some (?newId, row)"
  proof
    assume "fst (importSubjectBackup now clock doc (a, s)) = True"
    then have ok: "fst imp = Inr ()"
      by (simp add: res split: sum.splits)
    then have R: "importSubjectBackup now clock doc (a, s) = (True, ?a2, s2)"
      by (simp add: res)
    have "map content (getAllItemsWithProgress ?newId s2) = map content (a_items a)"
      using ok unfolding s2_def imp_def by (rule imported_views)
    then show "map content (getAllItemsWithProgress ?newId
               (snd (snd (importSubjectBackup now clock doc (a, s)))))
           = map content (a_items a)
         \<and> a_items (fst (snd (importSubjectBackup now clock doc (a, s))))
           = getAllItemsWithProgress ?newId
               (snd (snd (importSubjectBackup now clock doc (a, s))))
         \<and> currentSubject (fst (snd (importSubjectBackup now clock doc (a, s))))
           = Some (?newId, row)"
      by (simp add: R sel)
  qed
qed

lemma deck_export: "exportSubjectBackup deck_session = Some deck_doc"
  by (simp add: exportSubjectBackup_def deck_session_eq deck_doc_def new_app_def as_record_def)

lemma deck_import:
  "fst (importSubjectBackup 200 (\<lambda>i. 300) deck_doc (deck_session, deck_db)) = True"
  "subjects (snd (snd (importSubjectBackup 200 (\<lambda>i. 300) deck_doc (deck_session, deck_db))))
   = [(1, \<lparr>name = js ''Deck'', sub_settings = \<lparr>frontLang = None, backLang = None\<rparr>,
            sub_created_at = 10\<rparr>),
      (2, \<lparr>name = js ''Deck (Imported)'',
            sub_settings = \<lparr>frontLang = None, backLang = None\<rparr>, sub_created_at = 200\<rparr>)]"
  "getAllItemsWithProgress 2
     (snd (snd (importSubjectBackup 200 (\<lambda>i. 300) deck_doc (deck_session, deck_db))))
   = [\<lparr>v_id = 2, v_subject_id = 2, v_front = js ''A'', v_front_info = [],
        v_back = js ''B'', v_back_info = [], v_level = 2, v_last_studied = 100\<rparr>]"
  by (simp_all add: importSubjectBackup_def deck_doc_def deck_db_eq db_ops Let_def
      getAllItemsWithProgress_def merged_def)

lemma deck_keys: "subject_keys_assigned deck_db" "no_early_progress deck_db"
  by (simp_all add: subject_keys_assigned_def no_early_progress_def deck_db_eq)

text \<open>
  C6. A session with a selected subject exports a document. Importing that document
  always appends one subject row under the next subject key, which no row had, named as
  the selected subject with \<open>(Imported)\<close> appended; the rows that were there stay as
  they are. Whenever the import returns \<open>true\<close>, the items of the new subject are the
  exported ones in the same order, each with its texts, its level and its time of last
  study, and the session shows them. The import does return \<open>true\<close> when no progress
  row sits at an item key not handed out yet.
\<close>

theorem export_import_round_trip:
  assumes "currentSubject a = Some (subjId, sub)"
    and "subject_keys_assigned s"
  shows "\<exists>doc. exportSubjectBackup a = Some doc
     \<and> store_get (subjects s) (subjects_next s) = None
     \<and> subjects (snd (snd (importSubjectBackup now clock doc (a, s))))
         = subjects s @ [(subjects_next s,
              \<lparr>name = name sub @ js '' (Imported)'', sub_settings = sub_settings sub,
               sub_created_at = now\<rparr>)]
     \<and> (no_early_progress s \<longrightarrow> fst (importSubjectBackup now clock doc (a, s)) = True)
     \<and> (fst (importSubjectBackup now clock doc (a, s)) = True \<longrightarrow>
           map content (getAllItemsWithProgress (subjects_next s)
               (snd (snd (importSubjectBackup now clock doc (a, s)))))
           = map content (a_items a)
         \<and> a_items (fst (snd (importSubjectBackup now clock doc (a, s))))
           = getAllItemsWithProgress (subjects_next s)
               (snd (snd (importSubjectBackup now clock doc (a, s))))
         \<and> currentSubject (fst (snd (importSubjectBackup now clock doc (a, s))))
           = Some (subjects_next s,
               \<lparr>name = name sub @ js '' (Imported)'', sub_settings = sub_settings sub,
                sub_created_at = now\<rparr>))"
proof -
  note f = importSubjectBackup_export [OF assms]
  show ?thesis
    by (rule exI [where x = "\<lparr>version = 1,
          b_subject = Some \<lparr>bs_name = name sub, bs_settings = Some (sub_settings sub)\<rparr>,
          b_items = Some (map as_record (a_items a))\<rparr>"])
       (intro conjI f)
qed

theorem export_import_round_trip_witness:
  "currentSubject deck_session
     = Some (1, \<lparr>name = js ''Deck'', sub_settings = \<lparr>frontLang = None, backLang = None\<rparr>,
                  sub_created_at = 10\<rparr>)
   \<and> subject_keys_assigned deck_db \<and> no_early_progress deck_db
   \<and> map content (a_items deck_session) = [(js ''A'', [], js ''B'', [], 2, 100)]
   \<and> exportSubjectBackup deck_session = Some deck_doc
   \<and> fst (importSubjectBackup 200 (\<lambda>i. 300) deck_doc (deck_session, deck_db)) = True
   \<and> map (\<lambda>(k, r). (k, name r))
         (subjects (snd (snd (importSubjectBackup 200 (\<lambda>i. 300) deck_doc (deck_session, deck_db)))))
       = [(1, js ''Deck''), (2, js ''Deck (Imported)'')]
   \<and> getAllItemsWithProgress 2
         (snd (snd (importSubjectBackup 200 (\<lambda>i. 300) deck_doc (deck_session, deck_db))))
       = [\<lparr>v_id = 2, v_subject_id = 2, v_front = js ''A'', v_front_info = [],
            v_back = js ''B'', v_back_info = [], v_level = 2, v_last_studied = 100\<rparr>]"
proof -
  have cs: "currentSubject deck_session
     = Some (1, \<lparr>name = js ''Deck'', sub_settings = \<lparr>frontLang = None, backLang = None\<rparr>,
                  sub_created_at = 10\<rparr>)"
    by (simp add: deck_session_eq)
  have c: "map content (a_items deck_session) = [(js ''A'', [], js ''B'', [], 2, 100)]"
    by (simp add: deck_session_eq content_def)
  show ?thesis
    using export_import_round_trip [OF cs deck_keys(1), of 200 "\<lambda>i. 300"] cs c deck_keys
    by (simp add: deck_export deck_import)
qed

section \<open>The import parser\<close>

lemma parse_lines_append:
  "parse_lines (xs @ ys) = parse_lines xs @ parse_lines ys"
  by (induction xs) (simp_all add: Let_def)

text \<open>
  C4. A line that is not blank after trimming contributes to the result on its own, and
  what it contributes follows its parts: with exactly three parts the record is front =
  part 0, back = part 1, front_info = part 2 and an empty back_info; with four or more
  parts it is front, front_info, back, back_info = parts 0, 1, 2, 3 and the further parts
  are not used. Either record is kept when its front or its back is not empty.
\<close>

theorem parseCSV_field_mapping:
  assumes "trim line \<noteq> []"
  shows "(length (line_parts (trim line)) = 3 \<longrightarrow>
           parse_lines [line]
           = (if line_parts (trim line) ! 0 \<noteq> [] \<or> line_parts (trim line) ! 1 \<noteq> []
              then [\<lparr>c_front = line_parts (trim line) ! 0,
                     c_front_info = line_parts (trim line) ! 2,
                     c_back = line_parts (trim line) ! 1,
                     c_back_info = []\<rparr>]
              else []))
       \<and> (4 \<le> length (line_parts (trim line)) \<longrightarrow>
           parse_lines [line]
           = (if line_parts (trim line) ! 0 \<noteq> [] \<or> line_parts (trim line) ! 2 \<noteq> []
              then [\<lparr>c_front = line_parts (trim line) ! 0,
                     c_front_info = line_parts (trim line) ! 1,
                     c_back = line_parts (trim line) ! 2,
                     c_back_info = line_parts (trim line) ! 3\<rparr>]
              else []))
       \<and> parse_lines (before @ line # after)
           = parse_lines before @ parse_lines [line] @ parse_lines after"
proof -
  have "parse_lines (before @ line # after)
        = parse_lines before @ parse_lines ([line] @ after)"
    by (simp only: parse_lines_append append_Cons append_Nil)
  then have "parse_lines (before @ line # after)
        = parse_lines before @ parse_lines [line] @ parse_lines after"
    by (simp only: parse_lines_append)
  then show ?thesis
    using assms by (auto simp: Let_def map_fields_def)
qed


lemmas parser_eval = parseCSV_def line_parts_def clean_part_def strip_quotes_def
  parseLine_def map_fields_def trim_def isWhiteSpace_def js_def Let_def

lemma tab_line_parts:
  "trim tab_line \<noteq> []"
  "line_parts (trim tab_line) = [js ''x'', js ''y'', js ''z'']"
  "parseCSV tab_line
   = [\<lparr>c_front = js ''x'', c_front_info = js ''z'', c_back = js ''y'', c_back_info = []\<rparr>]"
  by (simp_all add: parser_eval tab_line_def)

lemma quoted_line_parts:
  "trim quoted_line \<noteq> []"
  "line_parts (trim quoted_line) = [js ''a'', js ''b'', js ''c'', js ''d'', js ''e'']"
  "parseCSV quoted_line
   = [\<lparr>c_front = js ''a'', c_front_info = js ''b'', c_back = js ''c'', c_back_info = js ''d''\<rparr>]"
  by (simp_all add: parser_eval quoted_line_def)

theorem parseCSV_field_mapping_witness:
  "trim tab_line \<noteq> []
   \<and> length (line_parts (trim tab_line)) = 3
   \<and> parse_lines [tab_line]
       = [\<lparr>c_front = js ''x'', c_front_info = js ''z'', c_back = js ''y'', c_back_info = []\<rparr>]
   \<and> parseCSV tab_line
       = [\<lparr>c_front = js ''x'', c_front_info = js ''z'', c_back = js ''y'', c_back_info = []\<rparr>]
   \<and> trim quoted_line \<noteq> []
   \<and> 4 \<le> length (line_parts (trim quoted_line))
   \<and> parse_lines [quoted_line]
       = [\<lparr>c_front = js ''a'', c_front_info = js ''b'', c_back = js ''c'', c_back_info = js ''d''\<rparr>]"
  using parseCSV_field_mapping [OF tab_line_parts(1), of "[]" "[]"]
    parseCSV_field_mapping [OF quoted_line_parts(1), of "[]" "[]"]
    tab_line_parts(1) quoted_line_parts(1)
  by (simp add: tab_line_parts(2,3) quoted_line_parts(2) js_def)

end
